theory Spec2Isabelle
  imports Main "HOL-Library.Char_ord" "HOL-Library.List_Lexorder"
begin

section \<open>Python strings\<close>

text \<open>
  A Python \<open>str\<close> is modelled as a \<open>string\<close>, one \<open>char\<close> per code point; the model
  therefore covers text whose code points are below 256. The string methods the script
  calls are written out for that range: \<open>str.isdigit\<close> holds for the ten decimal digits and
  for the superscripts U+00B2, U+00B3 and U+00B9, \<open>str.lower\<close> moves \<open>A\<close>..\<open>Z\<close> and
  U+00C0..U+00DE (without U+00D7) up by 32.
\<close>

definition in_range :: "char \<Rightarrow> char \<Rightarrow> char \<Rightarrow> bool" where
  "in_range lo hi c = (lo \<le> c \<and> c \<le> hi)"

definition isdigit_char :: "char \<Rightarrow> bool" where
  "isdigit_char c =
     (in_range (CHR ''0'') (CHR ''9'') c \<or> c = CHR 0xB2 \<or> c = CHR 0xB3 \<or> c = CHR 0xB9)"

definition isdigit :: "string \<Rightarrow> bool" where
  "isdigit s = (s \<noteq> [] \<and> list_all isdigit_char s)"

definition lower_char :: "char \<Rightarrow> char" where
  "lower_char c =
     (if in_range (CHR ''A'') (CHR ''Z'') c
         \<or> (in_range (CHR 0xC0) (CHR 0xDE) c \<and> c \<noteq> CHR 0xD7)
      then char_of (of_char c + (32::nat)) else c)"

definition lower :: "string \<Rightarrow> string" where
  "lower s = map lower_char s"

definition endswith :: "string \<Rightarrow> char \<Rightarrow> bool" where
  "endswith s c = (s \<noteq> [] \<and> last s = c)"

definition startswith :: "string \<Rightarrow> string \<Rightarrow> bool" where
  "startswith s p = (take (length p) s = p)"

text \<open>\<open>s.split(c)\<close> for a one-character separator: the pieces between the separators,
  empty pieces kept, one (empty) piece for the empty string.\<close>

fun split :: "char \<Rightarrow> string \<Rightarrow> string list" where
  "split sep [] = [[]]"
| "split sep (c # cs) =
     (if c = sep then [] # split sep cs
      else (case split sep cs of p # ps \<Rightarrow> (c # p) # ps | [] \<Rightarrow> [[c]]))"

text \<open>\<open>s.partition(c)\<close>: the text before the first separator, whether there is one, and
  the text after it.\<close>

definition partition_at :: "char \<Rightarrow> string \<Rightarrow> string \<times> bool \<times> string" where
  "partition_at sep s =
     (takeWhile (\<lambda>c. c \<noteq> sep) s, sep \<in> set s, drop 1 (dropWhile (\<lambda>c. c \<noteq> sep) s))"

section \<open>The two regular expressions of the per-segment heuristics\<close>

definition is_ident_start :: "char \<Rightarrow> bool" where
  "is_ident_start c =
     (in_range (CHR ''a'') (CHR ''z'') c \<or> in_range (CHR ''A'') (CHR ''Z'') c
      \<or> c = CHR ''_'' \<or> c = CHR ''$'')"

definition is_ident_char :: "char \<Rightarrow> bool" where
  "is_ident_char c = (is_ident_start c \<or> in_range (CHR ''0'') (CHR ''9'') c)"

definition is_slug_char :: "char \<Rightarrow> bool" where
  "is_slug_char c =
     (in_range (CHR ''a'') (CHR ''z'') c \<or> in_range (CHR ''A'') (CHR ''Z'') c
      \<or> in_range (CHR ''0'') (CHR ''9'') c \<or> c = CHR ''_'' \<or> c = CHR ''-'')"

text \<open>The greedy match of \<open>[a-zA-Z_$][a-zA-Z0-9_$]*\<close> at the start of a string.\<close>

definition ident_prefix :: "string \<Rightarrow> string option" where
  "ident_prefix s =
     (case s of
        [] \<Rightarrow> None
      | c # cs \<Rightarrow> if is_ident_start c then Some (c # takeWhile is_ident_char cs) else None)"

text \<open>
  Group 1 of \<open>re.match(r'[{:]?([a-zA-Z_$][a-zA-Z0-9_$]*)[}]?', segment)\<close>. The match is
  anchored at the start of the segment only. The optional delimiter is tried first; when
  the identifier does not follow it, the engine backtracks and tries the identifier at
  the start. The trailing \<open>[}]?\<close> always succeeds, so the star keeps its longest run.
\<close>

definition placeholder_match :: "string \<Rightarrow> string option" where
  "placeholder_match segment =
     (case (case segment of
              [] \<Rightarrow> None
            | c # cs \<Rightarrow> if c = CHR ''{'' \<or> c = CHR '':'' then ident_prefix cs else None) of
        Some g \<Rightarrow> Some g
      | None \<Rightarrow> ident_prefix segment)"

text \<open>
  Whether \<open>re.match(r'^[a-zA-Z0-9_-]+$', segment)\<close> matches: a non-empty run of class
  characters up to the end of the segment, or up to one final newline (where Python's
  \<open>$\<close> also matches).
\<close>

definition slug_pattern_match :: "string \<Rightarrow> bool" where
  "slug_pattern_match segment =
     (let rest = dropWhile is_slug_char segment
      in takeWhile is_slug_char segment \<noteq> [] \<and> (rest = [] \<or> rest = [CHR 0x0A]))"

section \<open>The per-segment heuristics of \<open>extract_potential_path_parameters\<close>\<close>

definition common_static_segments :: "string set" where
  "common_static_segments =
     {''api'', ''v1'', ''v2'', ''css'', ''js'', ''img'', ''images'', ''static'', ''assets'',
      ''admin'', ''dashboard'', ''new'', ''edit'', ''delete'', ''view'', ''index'', ''home''}"

text \<open>Heuristic 1 (lines 103 to 105): the identifier, unless it is the whole segment.\<close>

definition explicit_placeholder :: "string \<Rightarrow> string option" where
  "explicit_placeholder segment =
     (case placeholder_match segment of
        None \<Rightarrow> None
      | Some g \<Rightarrow> if g \<noteq> segment then Some g else None)"

text \<open>Heuristic 2 (lines 109 to 120). The index \<open>i\<close> and the segment come from
  \<open>enumerate(path_segments)\<close>, so \<open>i - 1\<close> is in range where it is read.\<close>

definition numeric_hint :: "string list \<Rightarrow> nat \<Rightarrow> string \<Rightarrow> string option" where
  "numeric_hint path_segments i segment =
     (if isdigit segment \<and> length segment > 1 then
        Some (if i > 0 then
                (let prev_segment = lower (path_segments ! (i - 1))
                 in if prev_segment \<in> set [''users'', ''products'', ''items'', ''posts'', ''orders'']
                    then prev_segment @ ''_id''
                    else if endswith prev_segment (CHR ''s'')
                    then butlast prev_segment @ ''_id''
                    else ''id'')
              else ''id'')
      else None)"

text \<open>Heuristic 3 (lines 125 to 139).\<close>

definition slug_hint :: "string list \<Rightarrow> nat \<Rightarrow> string \<Rightarrow> string option" where
  "slug_hint path_segments i segment =
     (if slug_pattern_match segment \<and> \<not> isdigit segment \<and> length segment > 2
         \<and> lower segment \<notin> common_static_segments then
        Some (if i > 0 then
                (let prev_segment = lower (path_segments ! (i - 1))
                 in if prev_segment \<in> set [''products'', ''articles'', ''posts'', ''categories'', ''users'']
                    then (if endswith prev_segment (CHR ''s'')
                          then butlast prev_segment @ ''_slug''
                          else prev_segment @ ''_name'')
                    else ''slug'')
              else ''slug'')
      else None)"

text \<open>Line 96: the path split on \<open>/\<close>, empty pieces dropped.\<close>

definition split_path :: "string \<Rightarrow> string list" where
  "split_path path = filter (\<lambda>s. s \<noteq> []) (split (CHR ''/'') path)"

section \<open>The parsed document\<close>

text \<open>
  The tree \<open>BeautifulSoup(html, 'html.parser')\<close> returns: tags with their attribute
  dictionary and children, text nodes and comment nodes. The root object is itself a tag.
\<close>

datatype node =
    Tag string "(string \<times> string) list" "node list"
  | NavigableString string
  | Comment string

fun tag_name :: "node \<Rightarrow> string" where
  "tag_name (Tag n a cs) = n"
| "tag_name (NavigableString s) = []"
| "tag_name (Comment s) = []"

text \<open>\<open>element.get(key)\<close>: the attribute's value, or \<open>None\<close>.\<close>

fun get :: "node \<Rightarrow> string \<Rightarrow> string option" where
  "get (Tag n a cs) key = map_of a key"
| "get (NavigableString s) key = None"
| "get (Comment s) key = None"

text \<open>All nodes below a node, in document order.\<close>

fun descendants :: "node \<Rightarrow> node list" where
  "descendants (Tag n a cs) = concat (map (\<lambda>c. c # descendants c) cs)"
| "descendants (NavigableString s) = []"
| "descendants (Comment s) = []"

definition is_tag_named :: "string list \<Rightarrow> node \<Rightarrow> bool" where
  "is_tag_named names n = (case n of Tag t a cs \<Rightarrow> t \<in> set names | _ \<Rightarrow> False)"

text \<open>\<open>root.find_all(names)\<close>: the tags below \<open>root\<close> with one of the names.\<close>

definition find_all :: "string list \<Rightarrow> node \<Rightarrow> node list" where
  "find_all names root = filter (is_tag_named names) (descendants root)"

text \<open>\<open>soup.find_all(string=lambda text: isinstance(text, Comment))\<close>, as the comments' text.\<close>

definition find_comments :: "node \<Rightarrow> string list" where
  "find_comments root =
     List.map_filter (\<lambda>n. case n of Comment s \<Rightarrow> Some s | _ \<Rightarrow> None) (descendants root)"

text \<open>The \<open>.string\<close> property: the text of a node that is text, or of a tag whose only
  child has one.\<close>

fun node_string :: "node \<Rightarrow> string option" where
  "node_string (Tag n a [c]) = node_string c"
| "node_string (Tag n a cs) = None"
| "node_string (NavigableString s) = Some s"
| "node_string (Comment s) = Some s"

text \<open>\<open>script.string if script.string else ''\<close>.\<close>

definition script_text :: "node \<Rightarrow> string" where
  "script_text script = (case node_string script of None \<Rightarrow> [] | Some s \<Rightarrow> s)"

text \<open>\<open>"\n".join(parts)\<close>.\<close>

fun join_lines :: "string list \<Rightarrow> string" where
  "join_lines [] = []"
| "join_lines [p] = p"
| "join_lines (p # ps) = p @ CHR 0x0A # join_lines ps"

section \<open>Libraries and runtime\<close>

text \<open>
  What the script calls and does not define is a parameter of the model, collected in one
  record: the HTTP request, the HTML parser, \<open>urlparse\<close> and \<open>urljoin\<close> (\<open>None\<close> where
  they raise \<open>ValueError\<close>), the decoding of percent escapes, the regular expression
  engine on the patterns no heuristic of the path analysis uses, and the order in which
  the interpreter iterates over a set of strings.

  The patterns given to the engine are named by the line that holds them. For a pattern
  with one group, \<open>findall1\<close> is the list \<open>re.findall\<close> returns, which is also the
  list of \<open>group(1)\<close> over \<open>finditer\<close>; for the pattern with two groups, \<open>findall2\<close>
  is the list of pairs, a group that took no part in a match being the empty string.
\<close>

datatype request_exception =
    RequestFailed string  \<comment> \<open>raised by \<open>requests.get\<close>: network error or timeout\<close>
  | HTTPError nat         \<comment> \<open>raised by \<open>raise_for_status\<close>\<close>

record response =
  status_code :: nat
  body :: string

record url_parts =
  path :: string
  query :: string

datatype pattern =
    JsUrlPattern       \<comment> \<open>line 80, one group\<close>
  | JsParamPattern     \<comment> \<open>line 201, two groups\<close>
  | JsNamePattern      \<comment> \<open>line 211, one group\<close>
  | CommentKeyPattern  \<comment> \<open>line 238, one group\<close>
  | CommentWordPattern \<comment> \<open>line 243, one group\<close>

record env =
  requests_get :: "string \<Rightarrow> request_exception + response"
  BeautifulSoup :: "string \<Rightarrow> node"
  urlparse :: "string \<Rightarrow> url_parts option"
  urljoin :: "string \<Rightarrow> string \<Rightarrow> string option"
  decode_escapes :: "string \<Rightarrow> string"
  findall1 :: "pattern \<Rightarrow> string \<Rightarrow> string list"
  findall2 :: "pattern \<Rightarrow> string \<Rightarrow> (string \<times> string) list"
  set_iter :: "string set \<Rightarrow> string list"

text \<open>An iteration order lists every finite set once, each element once.\<close>

definition iterates :: "(string set \<Rightarrow> string list) \<Rightarrow> bool" where
  "iterates it = (\<forall>S. finite S \<longrightarrow> set (it S) = S \<and> distinct (it S))"

section \<open>\<open>urllib.parse.parse_qs\<close> with its default arguments\<close>

text \<open>\<open>unquote_plus\<close>: \<open>+\<close> becomes a space, then \<open>unquote\<close>, which returns a string
  without \<open>%\<close> as it is.\<close>

definition unquote_plus :: "env \<Rightarrow> string \<Rightarrow> string" where
  "unquote_plus env s =
     (let s' = map (\<lambda>c. if c = CHR ''+'' then CHR '' '' else c) s
      in if CHR ''%'' \<notin> set s' then s' else decode_escapes env s')"

text \<open>\<open>parse_qsl\<close> as CPython 3.10 and later have it: \<open>keep_blank_values\<close> and
  \<open>strict_parsing\<close> are false, the separator is \<open>&\<close>.\<close>

definition parse_field :: "env \<Rightarrow> string \<Rightarrow> (string \<times> string) list" where
  "parse_field env name_value =
     (if name_value \<noteq> [] then
        (case partition_at (CHR ''='') name_value of
           (name, has_eq, val) \<Rightarrow>
             if val \<noteq> [] then [(unquote_plus env name, unquote_plus env val)] else [])
      else [])"

definition parse_qsl :: "env \<Rightarrow> string \<Rightarrow> (string \<times> string) list" where
  "parse_qsl env qs =
     (if qs = [] then [] else concat (map (parse_field env) (split (CHR ''&'') qs)))"

text \<open>The dictionary \<open>parse_qs\<close> builds, with its keys in the order of insertion.\<close>

fun dict_append :: "(string \<times> string list) list \<Rightarrow> string \<Rightarrow> string \<Rightarrow> (string \<times> string list) list" where
  "dict_append [] name val = [(name, [val])]"
| "dict_append ((k, vs) # d) name val =
     (if k = name then (k, vs @ [val]) # d else (k, vs) # dict_append d name val)"

definition parse_qs :: "env \<Rightarrow> string \<Rightarrow> (string \<times> string list) list" where
  "parse_qs env qs = foldl (\<lambda>d (name, val). dict_append d name val) [] (parse_qsl env qs)"

section \<open>The finder and the process\<close>

text \<open>Every \<open>print\<close> of the script is one constructor, carrying the values its f-string
  interpolates. The lines of \<open>display_results\<close> are the report lines.\<close>

datatype line =
    FetchingPage string
  | PageFetched
  | ErrorFetching string request_exception
  | FoundQuery "string list"
  | NoQuery
  | AnalyzingUrls
  | FoundPlaceholder string string
  | FoundNumeric string string string
  | FoundSlug string string string
  | PathParamsFound "string list"
  | NoPathParams
  | NoForms
  | AnalyzingForm nat string string
  | HiddenParam string
  | VisibleParam string string
  | NoScripts
  | JsFound "string list"
  | NoJs
  | NoComments
  | CommentFound "string list"
  | NoCommentParams
  | Banner
  | TargetUrl string
  | CategoryHeader string nat
  | ParamLine string
  | NoneLine
  | Blank
  | Rule
  | Total nat
  | Note
  | Advice

fun is_report :: "line \<Rightarrow> bool" where
  "is_report Banner = True"
| "is_report (TargetUrl u) = True"
| "is_report (CategoryHeader c n) = True"
| "is_report (ParamLine p) = True"
| "is_report NoneLine = True"
| "is_report Blank = True"
| "is_report Rule = True"
| "is_report (Total n) = True"
| "is_report Note = True"
| "is_report Advice = True"
| "is_report l = False"

text \<open>The fields of \<open>WebParameterFinder\<close>, and what the process has printed so far.
  \<open>found_parameters\<close> is the dictionary of \<open>__init__\<close>, in its order of insertion.\<close>

record finder =
  url :: string
  html_content :: "string option"
  found_parameters :: "(string \<times> string set) list"
  processed_urls :: "string set"
  stdout :: "line list"

definition init :: "string \<Rightarrow> finder" where
  "init u =
     \<lparr>url = u, html_content = None,
      found_parameters =
        [(''URL Query Parameters'', {}),
         (''Potential Path/Route Parameters'', {}),
         (''Form Parameters (Visible)'', {}),
         (''Form Parameters (Hidden)'', {}),
         (''JavaScript-like Parameters'', {}),
         (''Comment Parameters'', {})],
      processed_urls = {}, stdout = []\<rparr>"

definition bucket :: "finder \<Rightarrow> string \<Rightarrow> string set" where
  "bucket st category = (case map_of (found_parameters st) category of None \<Rightarrow> {} | Some s \<Rightarrow> s)"

text \<open>\<open>self.found_parameters[category].add(x)\<close> and \<open>.update(xs)\<close>: the set under the
  key is replaced, the keys and their order stay.\<close>

definition update_bucket :: "string \<Rightarrow> (string set \<Rightarrow> string set) \<Rightarrow> finder \<Rightarrow> finder" where
  "update_bucket category f st =
     st\<lparr>found_parameters :=
          map (\<lambda>(c, s). if c = category then (c, f s) else (c, s)) (found_parameters st)\<rparr>"

definition emit :: "line list \<Rightarrow> finder \<Rightarrow> finder" where
  "emit ls st = st\<lparr>stdout := stdout st @ ls\<rparr>"

text \<open>A method returns, or an exception leaves it; what was written before stays.\<close>

datatype exn = SystemExit nat | ValueError

datatype outcome = Done finder | Raised exn finder

fun final :: "outcome \<Rightarrow> finder" where
  "final (Done st) = st"
| "final (Raised e st) = st"

definition and_then :: "outcome \<Rightarrow> (finder \<Rightarrow> outcome) \<Rightarrow> outcome" where
  "and_then r f = (case r of Done st \<Rightarrow> f st | Raised e st \<Rightarrow> Raised e st)"

section \<open>\<open>fetch_page\<close>\<close>

text \<open>\<open>raise_for_status\<close> raises for the status codes 400 to 599.\<close>

definition fetch_page :: "env \<Rightarrow> finder \<Rightarrow> outcome" where
  "fetch_page env st =
     (let st1 = emit [FetchingPage (url st)] st
      in case requests_get env (url st) of
           Inl e \<Rightarrow> Raised (SystemExit 1) (emit [ErrorFetching (url st) e] st1)
         | Inr response \<Rightarrow>
             if 400 \<le> status_code response \<and> status_code response < 600
             then Raised (SystemExit 1)
                    (emit [ErrorFetching (url st) (HTTPError (status_code response))] st1)
             else Done (emit [PageFetched] (st1\<lparr>html_content := Some (body response)\<rparr>)))"

section \<open>\<open>extract_url_query_parameters\<close>\<close>

definition extract_url_query_parameters :: "env \<Rightarrow> finder \<Rightarrow> outcome" where
  "extract_url_query_parameters env st =
     (case urlparse env (url st) of
        None \<Rightarrow> Raised ValueError st
      | Some parsed_url \<Rightarrow>
          (let query_params = parse_qs env (query parsed_url);
               st1 = foldl (\<lambda>s param_name. update_bucket ''URL Query Parameters'' (insert param_name) s)
                       st (map fst query_params)
           in Done (emit [if query_params \<noteq> [] then FoundQuery (map fst query_params) else NoQuery] st1)))"

section \<open>\<open>extract_potential_path_parameters\<close>\<close>

text \<open>Lines 67 to 85: the references of the page, each resolved against the target URL
  and added to the set; a \<open>ValueError\<close> of \<open>urljoin\<close> ends the method.\<close>

fun add_joined :: "env \<Rightarrow> string \<Rightarrow> string list \<Rightarrow> string set \<Rightarrow> string set option" where
  "add_joined env base [] urls_to_analyze = Some urls_to_analyze"
| "add_joined env base (r # rs) urls_to_analyze =
     (case urljoin env base r of
        None \<Rightarrow> None
      | Some u \<Rightarrow> add_joined env base rs (insert u urls_to_analyze))"

definition script_urls :: "env \<Rightarrow> node \<Rightarrow> string list" where
  "script_urls env soup =
     (let script_content = join_lines (map script_text (find_all [''script''] soup))
      in filter (\<lambda>found_url. length found_url > 2 \<and> \<not> startswith found_url ''//'')
           (findall1 env JsUrlPattern script_content))"

definition collect_urls :: "env \<Rightarrow> string \<Rightarrow> node \<Rightarrow> string set option" where
  "collect_urls env base soup =
     Option.bind (add_joined env base (List.map_filter (\<lambda>a. get a ''href'') (find_all [''a''] soup)) {})
       (\<lambda>s1. Option.bind (add_joined env base (List.map_filter (\<lambda>f. get f ''action'') (find_all [''form''] soup)) s1)
          (\<lambda>s2. add_joined env base (script_urls env soup) s2))"

text \<open>Lines 101 to 140: what one segment adds to \<open>potential_path_params\<close>, with the line
  printed for it. The three heuristics are tried one after the other, each on its own.\<close>

definition analyze_segment :: "string \<Rightarrow> string list \<Rightarrow> nat \<times> string \<Rightarrow> (string \<times> line) list" where
  "analyze_segment url_str path_segments = (\<lambda>(i, segment).
     (case explicit_placeholder segment of
        None \<Rightarrow> [] | Some g \<Rightarrow> [(g, FoundPlaceholder g url_str)])
     @ (case numeric_hint path_segments i segment of
          None \<Rightarrow> [] | Some h \<Rightarrow> [(h, FoundNumeric h segment url_str)])
     @ (case slug_hint path_segments i segment of
          None \<Rightarrow> [] | Some h \<Rightarrow> [(h, FoundSlug h segment url_str)]))"

definition analyze_path :: "string \<Rightarrow> string list \<Rightarrow> (string \<times> line) list" where
  "analyze_path url_str path_segments =
     concat (map (analyze_segment url_str path_segments) (List.enumerate 0 path_segments))"

text \<open>Lines 90 to 140: the loop over \<open>urls_to_analyze\<close>, in the order of iteration.\<close>

fun analyze_urls :: "env \<Rightarrow> string list \<Rightarrow> finder \<Rightarrow> string set \<Rightarrow> outcome \<times> string set" where
  "analyze_urls env [] st potential_path_params = (Done st, potential_path_params)"
| "analyze_urls env (url_str # rest) st potential_path_params =
     (if url_str \<in> processed_urls st then analyze_urls env rest st potential_path_params
      else
        (let st1 = st\<lparr>processed_urls := insert url_str (processed_urls st)\<rparr>
         in case urlparse env url_str of
              None \<Rightarrow> (Raised ValueError st1, potential_path_params)
            | Some parsed_url \<Rightarrow>
                (let path_segments = split_path (path parsed_url)
                 in if path_segments = [] then analyze_urls env rest st1 potential_path_params
                    else
                      (let found = analyze_path url_str path_segments
                       in analyze_urls env rest (emit (map snd found) st1)
                            (potential_path_params \<union> set (map fst found))))))"

definition extract_potential_path_parameters :: "env \<Rightarrow> finder \<Rightarrow> outcome" where
  "extract_potential_path_parameters env st =
     (case html_content st of
        None \<Rightarrow> Done st
      | Some html \<Rightarrow>
          if html = [] then Done st
          else
            (case collect_urls env (url st) (BeautifulSoup env html) of
               None \<Rightarrow> Raised ValueError st
             | Some urls_to_analyze \<Rightarrow>
                 (case analyze_urls env (set_iter env urls_to_analyze) (emit [AnalyzingUrls] st) {} of
                    (Raised e st1, potential_path_params) \<Rightarrow> Raised e st1
                  | (Done st1, potential_path_params) \<Rightarrow>
                      if potential_path_params \<noteq> {}
                      then Done (update_bucket ''Potential Path/Route Parameters''
                                   (\<lambda>s. s \<union> potential_path_params)
                                   (emit [PathParamsFound (set_iter env potential_path_params)] st1))
                      else Done (emit [NoPathParams] st1))))"

section \<open>\<open>extract_form_parameters\<close>\<close>

text \<open>Lines 171 to 179: one element of a form. \<open>if name:\<close> passes over an element whose
  \<open>name\<close> is missing or empty.\<close>

definition analyze_element :: "node \<Rightarrow> finder \<Rightarrow> finder" where
  "analyze_element element st =
     (case get element ''name'' of
        None \<Rightarrow> st
      | Some name \<Rightarrow>
          if name = [] then st
          else if tag_name element = ''input'' \<and> get element ''type'' = Some ''hidden''
          then emit [HiddenParam name] (update_bucket ''Form Parameters (Hidden)'' (insert name) st)
          else emit [VisibleParam name
                       (if tag_name element = ''input''
                        then (case get element ''type'' of None \<Rightarrow> ''text'' | Some t \<Rightarrow> t)
                        else tag_name element)]
                 (update_bucket ''Form Parameters (Visible)'' (insert name) st))"

definition analyze_form :: "nat \<times> node \<Rightarrow> finder \<Rightarrow> finder" where
  "analyze_form = (\<lambda>(i, form) st.
     foldl (\<lambda>s element. analyze_element element s)
       (emit [AnalyzingForm (i + 1)
                (case get form ''action'' of None \<Rightarrow> ''N/A'' | Some a \<Rightarrow> a)
                (case get form ''method'' of None \<Rightarrow> ''GET'' | Some m \<Rightarrow> m)] st)
       (find_all [''input'', ''select'', ''textarea''] form))"

definition extract_form_parameters :: "env \<Rightarrow> finder \<Rightarrow> outcome" where
  "extract_form_parameters env st =
     (case html_content st of
        None \<Rightarrow> Done st
      | Some html \<Rightarrow>
          if html = [] then Done st
          else
            (let forms = find_all [''form''] (BeautifulSoup env html)
             in if forms = [] then Done (emit [NoForms] st)
                else Done (foldl (\<lambda>s f. analyze_form f s) st (List.enumerate 0 forms))))"

section \<open>\<open>extract_js_parameters\<close>\<close>

definition js_names :: "env \<Rightarrow> string \<Rightarrow> string set" where
  "js_names env js_content =
     foldl (\<lambda>found_in_js name. insert name found_in_js)
       (foldl (\<lambda>found_in_js (m0, m1).
                 (if m1 \<noteq> [] then insert m1 else id) ((if m0 \<noteq> [] then insert m0 else id) found_in_js))
          {} (findall2 env JsParamPattern js_content))
       (findall1 env JsNamePattern js_content)"

definition extract_js_parameters :: "env \<Rightarrow> finder \<Rightarrow> outcome" where
  "extract_js_parameters env st =
     (case html_content st of
        None \<Rightarrow> Done st
      | Some html \<Rightarrow>
          if html = [] then Done st
          else
            (let script_tags = find_all [''script''] (BeautifulSoup env html)
             in if script_tags = [] then Done (emit [NoScripts] st)
                else
                  (let found_in_js = js_names env (join_lines (map script_text script_tags))
                   in if found_in_js \<noteq> {}
                      then Done (update_bucket ''JavaScript-like Parameters'' (\<lambda>s. s \<union> found_in_js)
                                   (emit [JsFound (set_iter env found_in_js)] st))
                      else Done (emit [NoJs] st))))"

section \<open>\<open>extract_comment_parameters\<close>\<close>

definition common_words :: "string set" where
  "common_words =
     {''this'', ''that'', ''the'', ''and'', ''or'', ''not'', ''for'', ''in'', ''with'', ''is'',
      ''of'', ''to'', ''a'', ''an'', ''on'', ''at'', ''by'', ''from'', ''as'', ''it'', ''he'',
      ''she'', ''we'', ''they'', ''you'', ''my'', ''your'', ''his'', ''her'', ''our'', ''their'',
      ''its'', ''up'', ''down'', ''left'', ''right'', ''true'', ''false'', ''null'',
      ''undefined''}"

definition comment_names :: "env \<Rightarrow> string set \<Rightarrow> string \<Rightarrow> string set" where
  "comment_names env found_in_comments comment =
     foldl (\<lambda>found word.
              if length word > 2 \<and> lower word \<notin> common_words then insert word found else found)
       (foldl (\<lambda>found p. insert p found) found_in_comments (findall1 env CommentKeyPattern comment))
       (findall1 env CommentWordPattern comment)"

definition extract_comment_parameters :: "env \<Rightarrow> finder \<Rightarrow> outcome" where
  "extract_comment_parameters env st =
     (case html_content st of
        None \<Rightarrow> Done st
      | Some html \<Rightarrow>
          if html = [] then Done st
          else
            (let comments = find_comments (BeautifulSoup env html)
             in if comments = [] then Done (emit [NoComments] st)
                else
                  (let found_in_comments = foldl (comment_names env) {} comments
                   in if found_in_comments \<noteq> {}
                      then Done (update_bucket ''Comment Parameters'' (\<lambda>s. s \<union> found_in_comments)
                                   (emit [CommentFound (set_iter env found_in_comments)] st))
                      else Done (emit [NoCommentParams] st))))"

section \<open>\<open>display_results\<close>\<close>

text \<open>Lines 277 to 286: one category, with the running total and the lines printed so
  far. \<open>sorted(list(params_set))\<close> sorts the set's elements, taken in the order of
  iteration.\<close>

definition display_category :: "env \<Rightarrow> nat \<times> line list \<Rightarrow> string \<times> string set \<Rightarrow> nat \<times> line list" where
  "display_category env = (\<lambda>(total_found, printed) (category, params_set).
     (let params_list = sort (set_iter env params_set)
      in if params_list \<noteq> []
         then (total_found + length params_list,
               printed @ [CategoryHeader category (length params_list)]
                 @ map ParamLine params_list @ [Blank])
         else (total_found,
               printed @ [CategoryHeader category (length params_list), NoneLine, Blank])))"

definition report :: "env \<Rightarrow> finder \<Rightarrow> nat \<times> line list" where
  "report env st =
     foldl (display_category env) (0, [Rule, Banner, Rule, TargetUrl (url st)]) (found_parameters st)"

text \<open>The number printed after \<open>Total Unique Parameters Discovered:\<close>.\<close>

definition total_found :: "env \<Rightarrow> finder \<Rightarrow> nat" where
  "total_found env st = fst (report env st)"

definition display_results :: "env \<Rightarrow> finder \<Rightarrow> finder" where
  "display_results env st =
     (case report env st of
        (n, printed) \<Rightarrow> emit (printed @ [Rule, Total n, Rule, Note, Advice]) st)"

section \<open>\<open>find_all_parameters\<close> and the script\<close>

definition find_all_parameters :: "env \<Rightarrow> finder \<Rightarrow> outcome" where
  "find_all_parameters env st =
     and_then (and_then (and_then (and_then (and_then (and_then
       (fetch_page env st)
       (extract_url_query_parameters env))
       (extract_potential_path_parameters env))
       (extract_form_parameters env))
       (extract_js_parameters env))
       (extract_comment_parameters env))
       (\<lambda>s. Done (display_results env s))"

text \<open>The exit code of the process: 0 when the method returns, the code of
  \<open>sys.exit\<close>, 1 for an exception nothing catches.\<close>

definition exit_code :: "outcome \<Rightarrow> nat" where
  "exit_code r = (case r of Done st \<Rightarrow> 0 | Raised (SystemExit n) st \<Rightarrow> n | Raised ValueError st \<Rightarrow> 1)"

text \<open>A run of the script on a target URL: a new finder, then \<open>find_all_parameters\<close>.\<close>

definition run :: "env \<Rightarrow> string \<Rightarrow> outcome" where
  "run env target_url = find_all_parameters env (init target_url)"

section \<open>An example page\<close>

text \<open>
  A target URL, the page served for it, and the results of the libraries on the strings
  of this page, as an environment for any order of iteration. The page is
  \<^verbatim>\<open><a href=/users/42>u</a><a href=/static/style.css>s</a><a href=/blog/my-page>b</a>\<close>
  \<^verbatim>\<open><form action=/search><input type=hidden name=csrf_token><input name=q>\<close>
  \<^verbatim>\<open><input type=HIDDEN name=mode><input type=hidden name=id><select name=id></select>\<close>
  \<^verbatim>\<open><input type=hidden name><textarea name=note></textarea><input type=submit></form>\<close>
  \<^verbatim>\<open><script>var token = 5; cfg = {page: 1};</script><!-- debug: userId=5 -->\<close>
  on one line. Two more URLs stand for a host that cannot be reached and for a page that
  is not found, a fourth has the query \<open>a=&b=2\<close>.
\<close>

definition example_url :: string where
  "example_url = ''http://example.com/?a=1&b=2&a=3''"

definition blank_url :: string where
  "blank_url = ''http://example.com/?a=&b=2''"

definition unreachable_url :: string where
  "unreachable_url = ''http://unreachable.invalid/''"

definition missing_url :: string where
  "missing_url = ''http://example.com/missing''"

definition example_html :: string where
  "example_html =
     ''<a href=/users/42>u</a><a href=/static/style.css>s</a><a href=/blog/my-page>b</a>''
     @ ''<form action=/search><input type=hidden name=csrf_token><input name=q>''
     @ ''<input type=HIDDEN name=mode><input type=hidden name=id><select name=id></select>''
     @ ''<input type=hidden name><textarea name=note></textarea><input type=submit></form>''
     @ ''<script>var token = 5; cfg = {page: 1};</script><!-- debug: userId=5 -->''"

definition example_soup :: node where
  "example_soup =
     Tag ''[document]'' []
       [Tag ''a'' [(''href'', ''/users/42'')] [NavigableString ''u''],
        Tag ''a'' [(''href'', ''/static/style.css'')] [NavigableString ''s''],
        Tag ''a'' [(''href'', ''/blog/my-page'')] [NavigableString ''b''],
        Tag ''form'' [(''action'', ''/search'')]
          [Tag ''input'' [(''type'', ''hidden''), (''name'', ''csrf_token'')] [],
           Tag ''input'' [(''name'', ''q'')] [],
           Tag ''input'' [(''type'', ''HIDDEN''), (''name'', ''mode'')] [],
           Tag ''input'' [(''type'', ''hidden''), (''name'', ''id'')] [],
           Tag ''select'' [(''name'', ''id'')] [],
           Tag ''input'' [(''type'', ''hidden''), (''name'', [])] [],
           Tag ''textarea'' [(''name'', ''note'')] [],
           Tag ''input'' [(''type'', ''submit'')] []],
        Tag ''script'' [] [NavigableString ''var token = 5; cfg = {page: 1};''],
        Comment '' debug: userId=5 '']"

definition example_env :: "(string set \<Rightarrow> string list) \<Rightarrow> env" where
  "example_env it =
     \<lparr>requests_get = (\<lambda>u.
        if u = unreachable_url then Inl (RequestFailed ''Name or service not known'')
        else if u = missing_url then Inr \<lparr>status_code = 404, body = ''Not Found''\<rparr>
        else Inr \<lparr>status_code = 200, body = example_html\<rparr>),
      BeautifulSoup = (\<lambda>html.
        if html = example_html then example_soup
        else Tag ''[document]'' [] [NavigableString html]),
      urlparse = map_of
        [(example_url, \<lparr>path = ''/'', query = ''a=1&b=2&a=3''\<rparr>),
         (blank_url, \<lparr>path = ''/'', query = ''a=&b=2''\<rparr>),
         (''http://example.com/users/42'', \<lparr>path = ''/users/42'', query = []\<rparr>),
         (''http://example.com/static/style.css'', \<lparr>path = ''/static/style.css'', query = []\<rparr>),
         (''http://example.com/blog/my-page'', \<lparr>path = ''/blog/my-page'', query = []\<rparr>),
         (''http://example.com/search'', \<lparr>path = ''/search'', query = []\<rparr>)],
      urljoin = (\<lambda>base. map_of
        [(''/users/42'', ''http://example.com/users/42''),
         (''/static/style.css'', ''http://example.com/static/style.css''),
         (''/blog/my-page'', ''http://example.com/blog/my-page''),
         (''/search'', ''http://example.com/search'')]),
      decode_escapes = (\<lambda>s. s),
      findall1 = (\<lambda>p s.
        if p = CommentKeyPattern \<and> s = '' debug: userId=5 '' then [''userId'']
        else if p = CommentWordPattern \<and> s = '' debug: userId=5 '' then [''debug'', ''userId'']
        else []),
      findall2 = (\<lambda>p s.
        if p = JsParamPattern \<and> s = ''var token = 5; cfg = {page: 1};''
        then [(''token'', []), ([], ''page'')] else []),
      set_iter = it\<rparr>"

text \<open>Two orders of iteration: ascending and descending.\<close>

definition ascending :: "string set \<Rightarrow> string list" where
  "ascending S = sorted_list_of_set S"

definition descending :: "string set \<Rightarrow> string list" where
  "descending S = rev (sorted_list_of_set S)"

text \<open>A finder in which one name stands in two buckets.\<close>

definition shared_name_finder :: finder where
  "shared_name_finder =
     update_bucket ''Form Parameters (Hidden)'' (insert ''id'')
       (update_bucket ''Form Parameters (Visible)'' (\<lambda>s. s \<union> {''id'', ''q''}) (init example_url))"

text \<open>The finder after the example page was fetched.\<close>

definition fetched_finder :: finder where
  "fetched_finder = (init example_url)\<lparr>html_content := Some example_html\<rparr>"


section \<open>Notions for the statements\<close>

text \<open>The keys of \<open>found_parameters\<close>, in the order of \<open>__init__\<close>.\<close>

definition categories :: "string list" where
  "categories =
     [''URL Query Parameters'', ''Potential Path/Route Parameters'',
      ''Form Parameters (Visible)'', ''Form Parameters (Hidden)'',
      ''JavaScript-like Parameters'', ''Comment Parameters'']"

text \<open>A Python set is finite.\<close>

definition finite_buckets :: "finder \<Rightarrow> bool" where
  "finite_buckets st = list_all (\<lambda>(c, s). finite s) (found_parameters st)"

text \<open>The test of line 173.\<close>

definition hidden_input :: "node \<Rightarrow> bool" where
  "hidden_input element = (tag_name element = ''input'' \<and> get element ''type'' = Some ''hidden'')"

text \<open>The bucket an element of a form is placed in, with the name placed there.\<close>

definition placement :: "node \<Rightarrow> (string \<times> string) option" where
  "placement element =
     (case get element ''name'' of
        None \<Rightarrow> None
      | Some name \<Rightarrow>
          if name = [] then None
          else Some (if hidden_input element then ''Form Parameters (Hidden)''
                     else ''Form Parameters (Visible)'', name))"

text \<open>The input, select and textarea elements below the forms of a document, form by
  form.\<close>

definition form_fields :: "node \<Rightarrow> node list" where
  "form_fields soup =
     concat (map (find_all [''input'', ''select'', ''textarea'']) (find_all [''form''] soup))"

text \<open>The hints one URL of the page adds when the loop reaches it.\<close>

definition url_hints :: "env \<Rightarrow> string \<Rightarrow> string set" where
  "url_hints env url_str =
     (case urlparse env url_str of
        None \<Rightarrow> {}
      | Some parsed_url \<Rightarrow> set (map fst (analyze_path url_str (split_path (path parsed_url)))))"

text \<open>The lines of the report among the printed lines.\<close>

definition report_lines :: "finder \<Rightarrow> line list" where
  "report_lines st = filter is_report (stdout st)"

text \<open>Two states that differ at most in the progress lines printed, and two outcomes
  of the same kind with the same buckets and report.\<close>

definition agree :: "finder \<Rightarrow> finder \<Rightarrow> bool" where
  "agree s1 s2 =
     (url s1 = url s2 \<and> html_content s1 = html_content s2
      \<and> found_parameters s1 = found_parameters s2 \<and> processed_urls s1 = processed_urls s2
      \<and> report_lines s1 = report_lines s2 \<and> finite_buckets s1)"

fun agree_out :: "outcome \<Rightarrow> outcome \<Rightarrow> bool" where
  "agree_out (Done s1) (Done s2) = agree s1 s2"
| "agree_out (Raised e1 s1) (Raised e2 s2) =
     (e1 = e2 \<and> found_parameters s1 = found_parameters s2 \<and> report_lines s1 = report_lines s2)"
| "agree_out r1 r2 = False"

section \<open>The per-segment heuristics on the paths of the specification\<close>

text \<open>
  Claim C1, as the code has it. For the path \<open>/api/v1\<close> the slug heuristic gives no hint
  for either segment: both are in the set of static words. For the path \<open>/css/style\<close> it
  gives no hint for \<open>css\<close>, which is in the set, and the hint \<open>slug\<close> for \<open>style\<close>,
  which is five characters long and not in the set.
\<close>

theorem slug_hint_static_paths:
  "split_path ''/api/v1'' = [''api'', ''v1'']
   \<and> map (\<lambda>(i, segment). slug_hint (split_path ''/api/v1'') i segment)
         (List.enumerate 0 (split_path ''/api/v1'')) = [None, None]
   \<and> lower ''api'' \<in> common_static_segments
   \<and> lower ''v1'' \<in> common_static_segments
   \<and> split_path ''/css/style'' = [''css'', ''style'']
   \<and> map (\<lambda>(i, segment). slug_hint (split_path ''/css/style'') i segment)
         (List.enumerate 0 (split_path ''/css/style'')) = [None, Some ''slug'']
   \<and> lower ''css'' \<in> common_static_segments"
  by code_simp

text \<open>
  Claim C1 as the specification states it fails at the second segment of \<open>/css/style\<close>:
  \<open>style\<close> is longer than two characters, is not in the set of static words, and the
  heuristic gives the hint \<open>slug\<close> for it.
\<close>

theorem slug_hint_css_style:
  "split_path ''/css/style'' = [''css'', ''style'']
   \<and> 2 < length ''style''
   \<and> lower ''style'' \<notin> common_static_segments
   \<and> slug_hint (split_path ''/css/style'') 1 ''style'' = Some ''slug''"
  by code_simp

text \<open>
  Claim C2. For the segment \<open>{id}\<close> the placeholder heuristic gives the identifier
  \<open>id\<close>. For the segment \<open>id\<close> the pattern matches too, its group is the whole segment,
  and the heuristic gives nothing; a path of that one segment adds nothing at all.
\<close>

theorem explicit_placeholder_id:
  "placeholder_match ''{id}'' = Some ''id''
   \<and> explicit_placeholder ''{id}'' = Some ''id''
   \<and> analyze_path u [''{id}''] = [(''id'', FoundPlaceholder ''id'' u)]
   \<and> placeholder_match ''id'' = Some ''id''
   \<and> explicit_placeholder ''id'' = None
   \<and> analyze_path u [''id''] = []"
  by code_simp

text \<open>
  Claim C3. For a segment of digits only, longer than one character, the numeric heuristic
  gives: the lower-cased previous segment followed by \<open>_id\<close> when that is one of \<open>users\<close>,
  \<open>products\<close>, \<open>items\<close>, \<open>posts\<close>, \<open>orders\<close>; otherwise the lower-cased previous
  segment without its last character, followed by \<open>_id\<close>, when it ends in \<open>s\<close>; and \<open>id\<close>
  otherwise, also when there is no previous segment. So \<open>/users/42\<close> adds \<open>users_id\<close> and
  \<open>/widgets/42\<close> adds \<open>widget_id\<close>.
\<close>

theorem numeric_segment_hint:
  assumes "isdigit segment" and "1 < length segment"
  shows "(0 < i \<and> lower (segs ! (i - 1)) \<in> {''users'', ''products'', ''items'', ''posts'', ''orders''}
            \<longrightarrow> numeric_hint segs i segment = Some (lower (segs ! (i - 1)) @ ''_id''))
       \<and> (0 < i \<and> lower (segs ! (i - 1)) \<notin> {''users'', ''products'', ''items'', ''posts'', ''orders''}
            \<and> endswith (lower (segs ! (i - 1))) (CHR ''s'')
            \<longrightarrow> numeric_hint segs i segment = Some (butlast (lower (segs ! (i - 1))) @ ''_id''))
       \<and> (i = 0 \<or> (lower (segs ! (i - 1)) \<notin> {''users'', ''products'', ''items'', ''posts'', ''orders''}
                    \<and> \<not> endswith (lower (segs ! (i - 1))) (CHR ''s''))
            \<longrightarrow> numeric_hint segs i segment = Some ''id'')
       \<and> map fst (analyze_path u (split_path ''/users/42'')) = [''slug'', ''users_id'']
       \<and> map fst (analyze_path u (split_path ''/widgets/42'')) = [''slug'', ''widget_id'']"
proof -
  have general: "numeric_hint segs i segment =
      Some (if 0 < i then
              (if lower (segs ! (i - 1)) \<in> {''users'', ''products'', ''items'', ''posts'', ''orders''}
               then lower (segs ! (i - 1)) @ ''_id''
               else if endswith (lower (segs ! (i - 1))) (CHR ''s'')
               then butlast (lower (segs ! (i - 1))) @ ''_id'' else ''id'')
            else ''id'')"
    using assms by (simp add: numeric_hint_def Let_def)
  have users: "map fst (analyze_path u (split_path ''/users/42'')) = [''slug'', ''users_id'']"
    by code_simp
  have widgets: "map fst (analyze_path u (split_path ''/widgets/42'')) = [''slug'', ''widget_id'']"
    by code_simp
  show ?thesis
    unfolding general using users widgets by simp
qed

theorem numeric_segment_hint_witness:
  "numeric_hint [''users'', ''42''] 1 ''42'' = Some ''users_id''
   \<and> numeric_hint [''widgets'', ''42''] 1 ''42'' = Some ''widget_id''
   \<and> numeric_hint [''about'', ''42''] 1 ''42'' = Some ''id''
   \<and> numeric_hint [''42''] 0 ''42'' = Some ''id''"
proof -
  have d: "isdigit ''42''" by code_simp
  have l: "1 < length ''42''" by simp
  have users: "0 < (1::nat) \<and> lower ([''users'', ''42''] ! (1 - 1))
                 \<in> {''users'', ''products'', ''items'', ''posts'', ''orders''}"
    by code_simp
  have widgets: "0 < (1::nat) \<and> lower ([''widgets'', ''42''] ! (1 - 1))
                 \<notin> {''users'', ''products'', ''items'', ''posts'', ''orders''}
               \<and> endswith (lower ([''widgets'', ''42''] ! (1 - 1))) (CHR ''s'')"
    by code_simp
  have about: "lower ([''about'', ''42''] ! (1 - 1))
                 \<notin> {''users'', ''products'', ''items'', ''posts'', ''orders''}
               \<and> \<not> endswith (lower ([''about'', ''42''] ! (1 - 1))) (CHR ''s'')"
    by code_simp
  have "numeric_hint [''users'', ''42''] 1 ''42'' = Some (lower ([''users'', ''42''] ! (1 - 1)) @ ''_id'')"
    using numeric_segment_hint [OF d l, where i = 1 and segs = "[''users'', ''42'']"] users by blast
  moreover have "numeric_hint [''widgets'', ''42''] 1 ''42''
                   = Some (butlast (lower ([''widgets'', ''42''] ! (1 - 1))) @ ''_id'')"
    using numeric_segment_hint [OF d l, where i = 1 and segs = "[''widgets'', ''42'']"] widgets by blast
  moreover have "numeric_hint [''about'', ''42''] 1 ''42'' = Some ''id''"
    using numeric_segment_hint [OF d l, where i = 1 and segs = "[''about'', ''42'']"] about by blast
  moreover have "numeric_hint [''42''] 0 ''42'' = Some ''id''"
    using numeric_segment_hint [OF d l, where i = 0 and segs = "[''42'']"] by blast
  moreover have "lower ([''users'', ''42''] ! (1 - 1)) @ ''_id'' = ''users_id''" by code_simp
  moreover have "butlast (lower ([''widgets'', ''42''] ! (1 - 1))) @ ''_id'' = ''widget_id''" by code_simp
  ultimately show ?thesis by simp
qed

section \<open>States and buckets\<close>

lemma and_then_Raised [simp]: "and_then (Raised e st) f = Raised e st"
  by (simp add: and_then_def)

lemma and_then_Done [simp]: "and_then (Done st) f = f st"
  by (simp add: and_then_def)

lemma emit_fields [simp]:
  "url (emit ls st) = url st"
  "html_content (emit ls st) = html_content st"
  "found_parameters (emit ls st) = found_parameters st"
  "processed_urls (emit ls st) = processed_urls st"
  "stdout (emit ls st) = stdout st @ ls"
  by (simp_all add: emit_def)

lemma update_bucket_fields [simp]:
  "url (update_bucket k f st) = url st"
  "html_content (update_bucket k f st) = html_content st"
  "processed_urls (update_bucket k f st) = processed_urls st"
  "stdout (update_bucket k f st) = stdout st"
  by (simp_all add: update_bucket_def)

lemma keys_update_bucket [simp]:
  "map fst (found_parameters (update_bucket k f st)) = map fst (found_parameters st)"
  by (simp add: update_bucket_def case_prod_unfold comp_def)

lemma bucket_emit [simp]: "bucket (emit ls st) k = bucket st k"
  by (simp add: bucket_def)

lemma map_of_update:
  "map_of (map (\<lambda>(c, s). if c = k then (c, f s) else (c, s)) xs) k'
     = (if k' = k then map_option f (map_of xs k) else map_of xs k')"
  by (induction xs) auto

lemma bucket_update_bucket:
  assumes "k \<in> set (map fst (found_parameters st))"
  shows "bucket (update_bucket k f st) k' = (if k' = k then f (bucket st k) else bucket st k')"
proof -
  from assms obtain s where "map_of (found_parameters st) k = Some s"
    by (metis map_of_eq_None_iff not_None_eq set_map)
  then show ?thesis
    by (simp add: bucket_def update_bucket_def map_of_update)
qed

lemma init_keys [simp]: "map fst (found_parameters (init u)) = categories"
  by (simp add: init_def categories_def)

lemma bucket_init [simp]: "bucket (init u) k = {}"
  by (simp add: init_def bucket_def)

lemma finite_buckets_init [simp]: "finite_buckets (init u)"
  by (simp add: finite_buckets_def init_def)

lemma finite_buckets_emit [simp]: "finite_buckets (emit ls st) = finite_buckets st"
  by (simp add: finite_buckets_def)

lemma finite_buckets_update:
  assumes "finite_buckets st" and "\<And>s. finite s \<Longrightarrow> finite (f s)"
  shows "finite_buckets (update_bucket k f st)"
  using assms
  by (fastforce simp: finite_buckets_def update_bucket_def list_all_iff split: if_splits)


section \<open>The report and its total\<close>

lemma iterates_ascending: "iterates ascending"
  by (simp add: iterates_def ascending_def)

lemma iterates_descending: "iterates descending"
  by (simp add: iterates_def descending_def)

lemma sort_iter:
  assumes "iterates it" and "finite S"
  shows "sort (it S) = sorted_list_of_set S"
proof -
  from assms have "set (it S) = S" "distinct (it S)"
    by (simp_all add: iterates_def)
  then show ?thesis
    by (metis sorted_list_of_set_sort_remdups distinct_remdups_id)
qed

lemma display_category_sorted:
  assumes "iterates (set_iter env)" and "finite S"
  shows "display_category env (n, ls) (c, S)
          = (n + card S,
             ls @ [CategoryHeader c (card S)]
                @ (if S = {} then [NoneLine] else map ParamLine (sorted_list_of_set S)) @ [Blank])"
proof -
  have s: "sort (set_iter env S) = sorted_list_of_set S"
    using assms by (rule sort_iter)
  have e: "(sorted_list_of_set S = []) = (S = {})"
    using assms(2) by (simp add: sorted_list_of_set_eq_Nil_iff)
  show ?thesis
    unfolding display_category_def Let_def case_prod_conv s
    using e by simp
qed

lemma report_sorted:
  assumes "iterates (set_iter env)" and "list_all (\<lambda>(c, s). finite s) fps"
  shows "foldl (display_category env) (n, ls) fps
          = (n + sum_list (map (\<lambda>(c, s). card s) fps),
             ls @ concat (map (\<lambda>(c, S). [CategoryHeader c (card S)]
                @ (if S = {} then [NoneLine] else map ParamLine (sorted_list_of_set S)) @ [Blank]) fps))"
  using assms(2)
proof (induction fps arbitrary: n ls)
  case Nil
  then show ?case by simp
next
  case (Cons a fps)
  obtain c S where a: "a = (c, S)" by (cases a)
  with Cons.prems have fin: "finite S" "list_all (\<lambda>(c, s). finite s) fps" by simp_all
  show ?case
    unfolding a foldl_Cons display_category_sorted [OF assms(1) fin(1)] Cons.IH [OF fin(2)]
    by simp
qed

lemma buckets_of_keys:
  assumes "map fst fps = ks" and "distinct ks"
  shows "map (\<lambda>k. case map_of fps k of None \<Rightarrow> {} | Some s \<Rightarrow> s) ks = map snd fps"
  using assms
proof (induction fps arbitrary: ks)
  case Nil
  then show ?case by simp
next
  case (Cons a fps)
  obtain c S where a: "a = (c, S)" by (cases a)
  from Cons.prems a obtain ks' where ks: "ks = c # ks'" "map fst fps = ks'" "distinct ks'" "c \<notin> set ks'"
    by auto
  have "map (\<lambda>k. case map_of fps k of None \<Rightarrow> {} | Some s \<Rightarrow> s) ks' = map snd fps"
    using ks by (intro Cons.IH) simp_all
  moreover have "map (\<lambda>k. case map_of (a # fps) k of None \<Rightarrow> {} | Some s \<Rightarrow> s) ks'
                 = map (\<lambda>k. case map_of fps k of None \<Rightarrow> {} | Some s \<Rightarrow> s) ks'"
    using ks(4) by (intro map_cong) (auto simp: a)
  ultimately show ?case by (simp add: ks a)
qed

lemma distinct_categories: "distinct categories"
  by (simp add: categories_def)

lemma bucket_list:
  assumes "map fst (found_parameters st) = categories"
  shows "map (bucket st) categories = map snd (found_parameters st)"
  unfolding bucket_def using assms distinct_categories by (rule buckets_of_keys)

lemma total_found_sum:
  assumes "iterates (set_iter env)" and "finite_buckets st"
    and "map fst (found_parameters st) = categories"
  shows "total_found env st = sum_list (map (\<lambda>c. card (bucket st c)) categories)"
proof -
  have "total_found env st = sum_list (map (\<lambda>(c, s). card s) (found_parameters st))"
    using assms(1,2) by (simp add: total_found_def report_def report_sorted finite_buckets_def)
  also have "\<dots> = sum_list (map card (map snd (found_parameters st)))"
    by (simp add: case_prod_unfold comp_def)
  also have "\<dots> = sum_list (map card (map (bucket st) categories))"
    using assms(3) by (simp add: bucket_list)
  finally show ?thesis by (simp add: comp_def)
qed


subsection \<open>Sizes of unions\<close>

lemma card_Union_le:
  "list_all finite Ss \<Longrightarrow> card (\<Union> (set Ss)) \<le> sum_list (map card Ss)"
proof (induction Ss)
  case Nil
  then show ?case by simp
next
  case (Cons S Ss)
  then have IH: "card (\<Union> (set Ss)) \<le> sum_list (map card Ss)" by simp
  have "card (S \<union> \<Union> (set Ss)) \<le> card S + card (\<Union> (set Ss))"
    by (rule card_Un_le)
  with IH show ?case by simp
qed

lemma card_Un_shared:
  assumes "finite A" and "finite B" and "x \<in> A" and "x \<in> B"
  shows "card (A \<union> B) < card A + card B"
proof -
  have "x \<in> A \<inter> B" using assms by simp
  moreover have "finite (A \<inter> B)" using assms by simp
  ultimately have "0 < card (A \<inter> B)"
    using card_gt_0_iff by blast
  moreover have "card (A \<union> B) + card (A \<inter> B) = card A + card B"
    using assms(1,2) by (rule card_Un_Int [symmetric])
  ultimately show ?thesis by linarith
qed

lemma card_Union_shared:
  assumes "list_all finite Ss" and "i < j" and "j < length Ss" and "x \<in> Ss ! i" and "x \<in> Ss ! j"
  shows "card (\<Union> (set Ss)) < sum_list (map card Ss)"
  using assms
proof (induction Ss arbitrary: i j)
  case Nil
  then show ?case by simp
next
  case (Cons S Ss)
  from Cons.prems(1) have fin: "finite S" "list_all finite Ss" by simp_all
  from fin(2) have finU: "finite (\<Union> (set Ss))" by (simp add: list_all_iff)
  from Cons.prems(2) obtain j' where j: "j = Suc j'" by (cases j) simp_all
  have le: "card (\<Union> (set Ss)) \<le> sum_list (map card Ss)"
    using fin(2) by (rule card_Union_le)
  show ?case
  proof (cases i)
    case 0
    from 0 Cons.prems(4) have "x \<in> S" by simp
    moreover from j Cons.prems(3,5) have "x \<in> \<Union> (set Ss)"
      by (metis Sup_upper length_Cons not_less_eq nth_Cons_Suc nth_mem subsetD)
    ultimately have "card (S \<union> \<Union> (set Ss)) < card S + card (\<Union> (set Ss))"
      using fin(1) finU by (simp add: card_Un_shared)
    with le show ?thesis by simp
  next
    case (Suc i')
    from Suc j Cons.prems have "i' < j'" "j' < length Ss" "x \<in> Ss ! i'" "x \<in> Ss ! j'"
      by simp_all
    with fin(2) have "card (\<Union> (set Ss)) < sum_list (map card Ss)"
      by (rule Cons.IH)
    moreover have "card (S \<union> \<Union> (set Ss)) \<le> card S + card (\<Union> (set Ss))"
      by (rule card_Un_le)
    ultimately show ?thesis by simp
  qed
qed

lemma shared_name_counted_twice:
  assumes "iterates (set_iter env)" and "finite_buckets st"
    and "map fst (found_parameters st) = categories"
    and "c \<in> set categories" and "c' \<in> set categories" and "c \<noteq> c'"
    and "x \<in> bucket st c" and "x \<in> bucket st c'"
  shows "card (\<Union>k\<in>set categories. bucket st k) < total_found env st"
proof -
  let ?Ss = "map (bucket st) categories"
  have fin: "list_all finite ?Ss"
    using assms(2,3) by (simp add: bucket_list finite_buckets_def list_all_iff case_prod_unfold)
  from assms(4) obtain i where i: "i < length categories" "categories ! i = c"
    by (auto simp: in_set_conv_nth)
  from assms(5) obtain j where j: "j < length categories" "categories ! j = c'"
    by (auto simp: in_set_conv_nth)
  from i j assms(6) have "i \<noteq> j" by auto
  then consider "i < j" | "j < i" by linarith
  then have "card (\<Union> (set ?Ss)) < sum_list (map card ?Ss)"
  proof cases
    case 1
    show ?thesis
      by (rule card_Union_shared [OF fin 1, where x = x]) (use i j assms(7,8) in simp_all)
  next
    case 2
    show ?thesis
      by (rule card_Union_shared [OF fin 2, where x = x]) (use i j assms(7,8) in simp_all)
  qed
  moreover have "total_found env st = sum_list (map card ?Ss)"
    using assms(1-3) by (simp add: total_found_sum comp_def)
  ultimately show ?thesis by simp
qed

text \<open>
  Claim C4. With buckets that are finite sets under the six keys, the number printed as
  \<open>Total Unique Parameters Discovered\<close> is the sum of the sizes of the six buckets. It
  is not the size of their union: a string that stands in two different buckets makes the
  total larger than the number of distinct strings.
\<close>

theorem total_counts_each_bucket:
  assumes "iterates (set_iter env)" and "finite_buckets st"
    and "map fst (found_parameters st) = categories"
  shows "total_found env st
           = card (bucket st ''URL Query Parameters'')
             + card (bucket st ''Potential Path/Route Parameters'')
             + card (bucket st ''Form Parameters (Visible)'')
             + card (bucket st ''Form Parameters (Hidden)'')
             + card (bucket st ''JavaScript-like Parameters'')
             + card (bucket st ''Comment Parameters'')
         \<and> stdout (display_results env st)
             = stdout st @ snd (report env st) @ [Rule, Total (total_found env st), Rule, Note, Advice]
         \<and> (c \<in> set categories \<and> c' \<in> set categories \<and> c \<noteq> c'
              \<and> x \<in> bucket st c \<and> x \<in> bucket st c'
             \<longrightarrow> card (\<Union>k\<in>set categories. bucket st k) < total_found env st)"
proof -
  have "total_found env st = sum_list (map (\<lambda>c. card (bucket st c)) categories)"
    using assms by (rule total_found_sum)
  then have sum: "total_found env st
           = card (bucket st ''URL Query Parameters'')
             + card (bucket st ''Potential Path/Route Parameters'')
             + card (bucket st ''Form Parameters (Visible)'')
             + card (bucket st ''Form Parameters (Hidden)'')
             + card (bucket st ''JavaScript-like Parameters'')
             + card (bucket st ''Comment Parameters'')"
    by (simp add: categories_def)
  have printed: "stdout (display_results env st)
      = stdout st @ snd (report env st) @ [Rule, Total (total_found env st), Rule, Note, Advice]"
    by (simp add: display_results_def total_found_def case_prod_unfold)
  show ?thesis
    using sum printed shared_name_counted_twice [OF assms] by blast
qed

theorem total_counts_each_bucket_witness:
  "total_found (example_env ascending) shared_name_finder = 3
   \<and> card (\<Union>k\<in>set categories. bucket shared_name_finder k) = 2
   \<and> ''id'' \<in> bucket shared_name_finder ''Form Parameters (Visible)''
   \<and> ''id'' \<in> bucket shared_name_finder ''Form Parameters (Hidden)''
   \<and> card (\<Union>k\<in>set categories. bucket shared_name_finder k)
       < total_found (example_env ascending) shared_name_finder"
proof -
  have it: "iterates (set_iter (example_env ascending))"
    by (simp add: example_env_def iterates_ascending)
  have fin: "finite_buckets shared_name_finder"
    by (simp add: shared_name_finder_def finite_buckets_update)
  have keys: "map fst (found_parameters shared_name_finder) = categories"
    by (simp add: shared_name_finder_def)
  have b: "bucket shared_name_finder ''URL Query Parameters'' = {}"
    "bucket shared_name_finder ''Potential Path/Route Parameters'' = {}"
    "bucket shared_name_finder ''Form Parameters (Visible)'' = {''id'', ''q''}"
    "bucket shared_name_finder ''Form Parameters (Hidden)'' = {''id''}"
    "bucket shared_name_finder ''JavaScript-like Parameters'' = {}"
    "bucket shared_name_finder ''Comment Parameters'' = {}"
    by (simp_all add: shared_name_finder_def bucket_update_bucket categories_def)
  have c: "''Form Parameters (Visible)'' \<in> set categories \<and> ''Form Parameters (Hidden)'' \<in> set categories
      \<and> ''Form Parameters (Visible)'' \<noteq> ''Form Parameters (Hidden)''
      \<and> ''id'' \<in> bucket shared_name_finder ''Form Parameters (Visible)''
      \<and> ''id'' \<in> bucket shared_name_finder ''Form Parameters (Hidden)''"
    by (simp add: b categories_def)
  have u: "(\<Union>k\<in>set categories. bucket shared_name_finder k) = {''id'', ''q''}"
    by (auto simp: categories_def b)
  note t = total_counts_each_bucket [OF it fin keys,
      where c = "''Form Parameters (Visible)''" and c' = "''Form Parameters (Hidden)''" and x = "''id''"]
  from t have "total_found (example_env ascending) shared_name_finder = 3"
    by (simp add: b)
  moreover from t c have "card (\<Union>k\<in>set categories. bucket shared_name_finder k)
       < total_found (example_env ascending) shared_name_finder"
    by blast
  moreover have "card (\<Union>k\<in>set categories. bucket shared_name_finder k) = 2"
    by (simp add: u)
  ultimately show ?thesis using c by simp
qed


section \<open>The fields of the forms\<close>

lemma analyze_element_keys [simp]:
  "map fst (found_parameters (analyze_element e st)) = map fst (found_parameters st)"
  by (simp add: analyze_element_def split: option.splits)

lemma analyze_element_bucket:
  assumes "map fst (found_parameters st) = categories"
  shows "bucket (analyze_element e st) k = bucket st k \<union> {n. placement e = Some (k, n)}"
  using assms
  by (auto simp: analyze_element_def placement_def hidden_input_def bucket_update_bucket categories_def
      split: option.splits)

lemma analyze_elements_keys [simp]:
  "map fst (found_parameters (foldl (\<lambda>s e. analyze_element e s) st es)) = map fst (found_parameters st)"
  by (induction es arbitrary: st) simp_all

lemma analyze_elements_bucket:
  assumes "map fst (found_parameters st) = categories"
  shows "bucket (foldl (\<lambda>s e. analyze_element e s) st es) k
          = bucket st k \<union> {n. \<exists>e\<in>set es. placement e = Some (k, n)}"
  using assms
proof (induction es arbitrary: st)
  case Nil
  then show ?case by simp
next
  case (Cons e es)
  have "map fst (found_parameters (analyze_element e st)) = categories"
    using Cons.prems by simp
  then show ?case
    using Cons.prems by (auto simp: Cons.IH analyze_element_bucket)
qed

lemma analyze_form_keys [simp]:
  "map fst (found_parameters (analyze_form (i, f) st)) = map fst (found_parameters st)"
  by (simp add: analyze_form_def)

lemma analyze_form_bucket:
  assumes "map fst (found_parameters st) = categories"
  shows "bucket (analyze_form (i, f) st) k
          = bucket st k \<union> {n. \<exists>e\<in>set (find_all [''input'', ''select'', ''textarea''] f). placement e = Some (k, n)}"
  using assms by (simp add: analyze_form_def analyze_elements_bucket)

lemma analyze_forms_bucket:
  assumes "map fst (found_parameters st) = categories"
  shows "map fst (found_parameters (foldl (\<lambda>s f. analyze_form f s) st (List.enumerate i forms))) = categories
       \<and> bucket (foldl (\<lambda>s f. analyze_form f s) st (List.enumerate i forms)) k
          = bucket st k \<union> {n. \<exists>e\<in>set (concat (map (find_all [''input'', ''select'', ''textarea'']) forms)).
                                placement e = Some (k, n)}"
  using assms
proof (induction forms arbitrary: st i)
  case Nil
  then show ?case by simp
next
  case (Cons f forms)
  have "map fst (found_parameters (analyze_form (i, f) st)) = categories"
    using Cons.prems by simp
  from Cons.IH [OF this, of "Suc i"] show ?case
    using Cons.prems by (auto simp: analyze_form_bucket)
qed

text \<open>
  Claim C5, as the code has it. An input, select or textarea element below a form is
  placed when its \<open>name\<close> attribute is present and not empty: in the hidden bucket when
  it is an input element whose \<open>type\<close> is exactly \<open>hidden\<close>, in the visible bucket
  otherwise. An element whose \<open>name\<close> is missing or empty is placed in neither bucket, and
  no other bucket changes.
\<close>

theorem form_fields_placed:
  assumes "html_content st = Some html" and "html \<noteq> []"
    and "map fst (found_parameters st) = categories"
  shows "\<exists>st'. extract_form_parameters env st = Done st'
           \<and> bucket st' ''Form Parameters (Hidden)''
               = bucket st ''Form Parameters (Hidden)''
                 \<union> {name. \<exists>e\<in>set (form_fields (BeautifulSoup env html)).
                            get e ''name'' = Some name \<and> name \<noteq> [] \<and> hidden_input e}
           \<and> bucket st' ''Form Parameters (Visible)''
               = bucket st ''Form Parameters (Visible)''
                 \<union> {name. \<exists>e\<in>set (form_fields (BeautifulSoup env html)).
                            get e ''name'' = Some name \<and> name \<noteq> [] \<and> \<not> hidden_input e}
           \<and> (\<forall>k. k \<noteq> ''Form Parameters (Hidden)'' \<and> k \<noteq> ''Form Parameters (Visible)''
                  \<longrightarrow> bucket st' k = bucket st k)"
proof -
  let ?forms = "find_all [''form''] (BeautifulSoup env html)"
  let ?st' = "foldl (\<lambda>s f. analyze_form f s) st (List.enumerate 0 ?forms)"
  have run: "extract_form_parameters env st = (if ?forms = [] then Done (emit [NoForms] st) else Done ?st')"
    using assms(1,2) by (simp add: extract_form_parameters_def Let_def)
  have b: "bucket ?st' k = bucket st k \<union> {n. \<exists>e\<in>set (form_fields (BeautifulSoup env html)). placement e = Some (k, n)}" for k
    using analyze_forms_bucket [OF assms(3)] by (simp add: form_fields_def)
  have e: "?forms = [] \<Longrightarrow> bucket (emit [NoForms] st) k = bucket ?st' k" for k
    by simp
  have h: "{n. \<exists>e\<in>set fs. placement e = Some (''Form Parameters (Hidden)'', n)}
          = {name. \<exists>e\<in>set fs. get e ''name'' = Some name \<and> name \<noteq> [] \<and> hidden_input e}" for fs
    by (auto simp: placement_def split: option.splits if_splits)
  have v: "{n. \<exists>e\<in>set fs. placement e = Some (''Form Parameters (Visible)'', n)}
          = {name. \<exists>e\<in>set fs. get e ''name'' = Some name \<and> name \<noteq> [] \<and> \<not> hidden_input e}" for fs
    by (auto simp: placement_def split: option.splits if_splits)
  have o: "k \<noteq> ''Form Parameters (Hidden)'' \<Longrightarrow> k \<noteq> ''Form Parameters (Visible)''
          \<Longrightarrow> {n. \<exists>e\<in>set fs. placement e = Some (k, n)} = {}" for fs k
    by (auto simp: placement_def split: option.splits if_splits)
  show ?thesis
  proof (cases "?forms = []")
    case True
    then show ?thesis
      unfolding run using b h v o by (simp add: form_fields_def)
  next
    case False
    then show ?thesis
      unfolding run using b h v o by simp
  qed
qed

lemma placed_names_list:
  "{name. \<exists>e\<in>set es. get e ''name'' = Some name \<and> name \<noteq> [] \<and> Q e}
     = set (concat (map (\<lambda>e. case get e ''name'' of
                               None \<Rightarrow> [] | Some n \<Rightarrow> if n \<noteq> [] \<and> Q e then [n] else []) es))"
  by (induction es) (auto split: option.splits if_splits)

lemma example_form_fields:
  "form_fields (BeautifulSoup (example_env it) example_html) =
     [Tag ''input'' [(''type'', ''hidden''), (''name'', ''csrf_token'')] [],
      Tag ''input'' [(''name'', ''q'')] [],
      Tag ''input'' [(''type'', ''HIDDEN''), (''name'', ''mode'')] [],
      Tag ''input'' [(''type'', ''hidden''), (''name'', ''id'')] [],
      Tag ''select'' [(''name'', ''id'')] [],
      Tag ''input'' [(''type'', ''hidden''), (''name'', [])] [],
      Tag ''textarea'' [(''name'', ''note'')] [],
      Tag ''input'' [(''type'', ''submit'')] []]"
proof -
  have "BeautifulSoup (example_env it) example_html = example_soup"
    by (simp add: example_env_def)
  moreover have "form_fields example_soup =
     [Tag ''input'' [(''type'', ''hidden''), (''name'', ''csrf_token'')] [],
      Tag ''input'' [(''name'', ''q'')] [],
      Tag ''input'' [(''type'', ''HIDDEN''), (''name'', ''mode'')] [],
      Tag ''input'' [(''type'', ''hidden''), (''name'', ''id'')] [],
      Tag ''select'' [(''name'', ''id'')] [],
      Tag ''input'' [(''type'', ''hidden''), (''name'', [])] [],
      Tag ''textarea'' [(''name'', ''note'')] [],
      Tag ''input'' [(''type'', ''submit'')] []]"
    by code_simp
  ultimately show ?thesis by simp
qed

lemma example_hidden_names:
  "{name. \<exists>e\<in>set (form_fields (BeautifulSoup (example_env it) example_html)).
                get e ''name'' = Some name \<and> name \<noteq> [] \<and> hidden_input e} = {''csrf_token'', ''id''}"
  unfolding example_form_fields placed_names_list by code_simp

lemma example_visible_names:
  "{name. \<exists>e\<in>set (form_fields (BeautifulSoup (example_env it) example_html)).
                get e ''name'' = Some name \<and> name \<noteq> [] \<and> \<not> hidden_input e} = {''q'', ''mode'', ''id'', ''note''}"
  unfolding example_form_fields placed_names_list by code_simp


theorem form_fields_placed_witness:
  "\<exists>st'. extract_form_parameters (example_env ascending) fetched_finder = Done st'
      \<and> bucket st' ''Form Parameters (Hidden)'' = {''csrf_token'', ''id''}
      \<and> bucket st' ''Form Parameters (Visible)'' = {''q'', ''mode'', ''id'', ''note''}"
proof -
  have h: "html_content fetched_finder = Some example_html"
    by (simp add: fetched_finder_def)
  have n: "example_html \<noteq> []"
    unfolding example_html_def by simp
  have k: "map fst (found_parameters fetched_finder) = categories"
    unfolding fetched_finder_def by simp
  have b: "bucket fetched_finder c = {}" for c
    unfolding fetched_finder_def bucket_def init_def by simp
  note t = form_fields_placed [OF h n k, of "example_env ascending"]
  from t [unfolded example_hidden_names example_visible_names b]
  obtain st' where st': "extract_form_parameters (example_env ascending) fetched_finder = Done st' \<and>
         bucket st' ''Form Parameters (Hidden)'' = {} \<union> {''csrf_token'', ''id''} \<and>
         bucket st' ''Form Parameters (Visible)'' = {} \<union> {''q'', ''mode'', ''id'', ''note''} \<and>
         (\<forall>k. k \<noteq> ''Form Parameters (Hidden)'' \<and> k \<noteq> ''Form Parameters (Visible)''
              \<longrightarrow> bucket st' k = {})" ..
  show ?thesis
  proof (intro exI conjI)
    show "extract_form_parameters (example_env ascending) fetched_finder = Done st'"
      using st' by (rule conjunct1)
    show "bucket st' ''Form Parameters (Hidden)'' = {''csrf_token'', ''id''}"
      using st' [THEN conjunct2, THEN conjunct1] by (simp only: Un_empty_left)
    show "bucket st' ''Form Parameters (Visible)'' = {''q'', ''mode'', ''id'', ''note''}"
      using st' [THEN conjunct2, THEN conjunct2, THEN conjunct1] by (simp only: Un_empty_left)
  qed
qed


text \<open>
  Claim C5 as the specification states it fails for an element that has a \<open>name\<close>
  attribute whose value is empty: a hidden input of that kind is passed over, and the
  finder stays as it was.
\<close>

theorem empty_name_not_placed:
  "get (Tag ''input'' [(''type'', ''hidden''), (''name'', [])] []) ''name'' = Some []
   \<and> hidden_input (Tag ''input'' [(''type'', ''hidden''), (''name'', [])] [])
   \<and> analyze_element (Tag ''input'' [(''type'', ''hidden''), (''name'', [])] []) (init example_url)
       = init example_url
   \<and> bucket (analyze_element (Tag ''input'' [(''type'', ''hidden''), (''name'', [])] []) (init example_url))
       ''Form Parameters (Hidden)'' = {}"
proof -
  have g: "get (Tag ''input'' [(''type'', ''hidden''), (''name'', [])] []) ''name'' = Some []"
    by simp
  have h: "hidden_input (Tag ''input'' [(''type'', ''hidden''), (''name'', [])] [])"
    by (simp add: hidden_input_def)
  have a: "analyze_element (Tag ''input'' [(''type'', ''hidden''), (''name'', [])] []) (init example_url)
       = init example_url"
    unfolding analyze_element_def g by simp
  show ?thesis
    unfolding a using g h by simp
qed

section \<open>The keys of the query string\<close>

lemma parse_qs_dup: "parse_qs env ''a=1&b=2&a=3'' = [(''a'', [''1'', ''3'']), (''b'', [''2''])]"
  by code_simp

lemma parse_qs_blank: "parse_qs env ''a=&b=2'' = [(''b'', [''2''])]"
  by code_simp

lemma fresh_buckets:
  assumes "found_parameters st = found_parameters (init u)"
  shows "map fst (found_parameters st) = categories" and "bucket st k = {}"
  using assms by (simp_all add: bucket_def init_def categories_def)

text \<open>
  Claim C6. For every target URL whose query component is \<open>a=1&b=2&a=3\<close>, the query
  extractor, run on a finder whose buckets are as \<open>__init__\<close> made them, returns and
  leaves exactly \<open>a\<close> and \<open>b\<close> in the bucket of the URL query parameters: the values
  are dropped and the key that stands twice is there once.
\<close>

theorem query_keys_collapsed:
  assumes "urlparse env (url st) = Some parsed_url" and "query parsed_url = ''a=1&b=2&a=3''"
    and "found_parameters st = found_parameters (init (url st))"
  shows "\<exists>st'. extract_url_query_parameters env st = Done st'
           \<and> bucket st' ''URL Query Parameters'' = {''a'', ''b''}
           \<and> stdout st' = stdout st @ [FoundQuery [''a'', ''b'']]"
proof -
  note f = fresh_buckets [OF assms(3)]
  have "bucket (update_bucket ''URL Query Parameters'' (insert ''b'')
           (update_bucket ''URL Query Parameters'' (insert ''a'') st)) ''URL Query Parameters''
         = {''a'', ''b''}"
    by (simp add: bucket_update_bucket f categories_def insert_commute)
  then show ?thesis
    using assms(1,2) by (simp add: extract_url_query_parameters_def parse_qs_dup)
qed

theorem query_keys_collapsed_witness:
  "\<exists>st'. extract_url_query_parameters (example_env ascending) fetched_finder = Done st'
      \<and> bucket st' ''URL Query Parameters'' = {''a'', ''b''}
      \<and> stdout st' = stdout fetched_finder @ [FoundQuery [''a'', ''b'']]"
proof -
  have u: "urlparse (example_env ascending) (url fetched_finder)
             = Some \<lparr>path = ''/'', query = ''a=1&b=2&a=3''\<rparr>"
    by (simp add: example_env_def fetched_finder_def init_def)
  have q: "query \<lparr>path = ''/'', query = ''a=1&b=2&a=3''\<rparr> = ''a=1&b=2&a=3''"
    by simp
  have f: "found_parameters fetched_finder = found_parameters (init (url fetched_finder))"
    by (simp add: fetched_finder_def init_def)
  from query_keys_collapsed [OF u q f] show ?thesis .
qed

lemma partition_at_no_sep:
  assumes "sep \<notin> set s"
  shows "partition_at sep s = (s, False, [])"
proof -
  have t: "takeWhile (\<lambda>c. c \<noteq> sep) s = s"
    using assms by (induction s) auto
  have d: "dropWhile (\<lambda>c. c \<noteq> sep) s = []"
    using assms by (induction s) auto
  show ?thesis
    unfolding partition_at_def t d using assms by simp
qed

lemma partition_at_trailing:
  assumes "sep \<notin> set s"
  shows "partition_at sep (s @ [sep]) = (s, True, [])"
proof -
  have t: "takeWhile (\<lambda>c. c \<noteq> sep) (s @ [sep]) = s"
    using assms by (induction s) auto
  have d: "dropWhile (\<lambda>c. c \<noteq> sep) (s @ [sep]) = [sep]"
    using assms by (induction s) auto
  show ?thesis
    unfolding partition_at_def t d by simp
qed

text \<open>
  Claim C10. A field of the query whose value is empty (\<open>key=\<close>) or absent (\<open>key\<close>)
  gives no entry. For every target URL whose query component is \<open>a=&b=2\<close>, the query
  extractor, run on a finder whose buckets are as \<open>__init__\<close> made them, leaves \<open>b\<close> in
  the bucket of the URL query parameters and not \<open>a\<close>.
\<close>

theorem blank_values_dropped:
  assumes "urlparse env (url st) = Some parsed_url" and "query parsed_url = ''a=&b=2''"
    and "found_parameters st = found_parameters (init (url st))"
    and "CHR ''='' \<notin> set key"
  shows "\<exists>st'. extract_url_query_parameters env st = Done st'
           \<and> bucket st' ''URL Query Parameters'' = {''b''}
           \<and> ''a'' \<notin> bucket st' ''URL Query Parameters''
           \<and> parse_field env (key @ ''='') = [] \<and> parse_field env key = []"
proof -
  note f = fresh_buckets [OF assms(3)]
  have "bucket (update_bucket ''URL Query Parameters'' (insert ''b'') st) ''URL Query Parameters'' = {''b''}"
    by (simp add: bucket_update_bucket f categories_def)
  moreover have "parse_field env (key @ ''='') = []"
    using assms(4) by (simp add: parse_field_def partition_at_trailing)
  moreover have "parse_field env key = []"
    using assms(4) by (simp add: parse_field_def partition_at_no_sep)
  ultimately show ?thesis
    using assms(1,2) by (simp add: extract_url_query_parameters_def parse_qs_blank)
qed

theorem blank_values_dropped_witness:
  "\<exists>st'. extract_url_query_parameters (example_env ascending) (init blank_url) = Done st'
      \<and> bucket st' ''URL Query Parameters'' = {''b''}
      \<and> ''a'' \<notin> bucket st' ''URL Query Parameters''
      \<and> parse_field (example_env ascending) (''a'' @ ''='') = []
      \<and> parse_field (example_env ascending) ''a'' = []"
proof -
  have u: "urlparse (example_env ascending) (url (init blank_url))
             = Some \<lparr>path = ''/'', query = ''a=&b=2''\<rparr>"
    by (simp add: example_env_def init_def blank_url_def example_url_def)
  have q: "query \<lparr>path = ''/'', query = ''a=&b=2''\<rparr> = ''a=&b=2''"
    by simp
  have f: "found_parameters (init blank_url) = found_parameters (init (url (init blank_url)))"
    by (simp add: init_def)
  have k: "CHR ''='' \<notin> set ''a''"
    by simp
  from blank_values_dropped [OF u q f k] show ?thesis .
qed

section \<open>A failed fetch\<close>




section \<open>The loop over the URLs of the page\<close>

lemma report_lines_emit [simp]:
  "report_lines (emit ls st) = report_lines st @ filter is_report ls"
  by (simp add: report_lines_def)

lemma report_lines_update_bucket [simp]:
  "report_lines (update_bucket k f st) = report_lines st"
  by (simp add: report_lines_def)

lemma report_lines_processed [simp]:
  "report_lines (st\<lparr>processed_urls := P\<rparr>) = report_lines st"
  by (simp add: report_lines_def)

lemma emit_Nil [simp]: "emit [] st = st"
  by (simp add: emit_def)

lemma analyze_segment_progress:
  "filter is_report (map snd (analyze_segment u segs p)) = []"
  by (cases p) (simp add: analyze_segment_def split: option.splits)

lemma analyze_path_progress [simp]:
  "filter is_report (map snd (analyze_path u segs)) = []"
  by (simp add: analyze_path_def map_concat filter_concat comp_def analyze_segment_progress)

lemma finite_url_hints [simp]: "finite (url_hints env u)"
  by (simp add: url_hints_def split: option.splits)

lemma analyze_urls_skip:
  "x \<in> processed_urls st \<Longrightarrow> analyze_urls env (x # xs) st acc = analyze_urls env xs st acc"
  by simp

lemma analyze_urls_fail:
  "x \<notin> processed_urls st \<Longrightarrow> urlparse env x = None \<Longrightarrow>
     analyze_urls env (x # xs) st acc
       = (Raised ValueError (st\<lparr>processed_urls := insert x (processed_urls st)\<rparr>), acc)"
  by simp

lemma analyze_urls_step:
  assumes "x \<notin> processed_urls st" and "urlparse env x = Some p"
  shows "analyze_urls env (x # xs) st acc
          = analyze_urls env xs
              (emit (map snd (analyze_path x (split_path (path p))))
                 (st\<lparr>processed_urls := insert x (processed_urls st)\<rparr>))
              (acc \<union> url_hints env x)"
  using assms by (simp add: url_hints_def Let_def analyze_path_def)

declare analyze_urls.simps(2) [simp del]

lemma analyze_urls_done:
  assumes "\<forall>u\<in>set xs - processed_urls st. urlparse env u \<noteq> None"
  shows "\<exists>st'. analyze_urls env xs st acc
                 = (Done st', acc \<union> (\<Union>u\<in>set xs - processed_urls st. url_hints env u))
           \<and> url st' = url st \<and> html_content st' = html_content st
           \<and> found_parameters st' = found_parameters st
           \<and> processed_urls st' = processed_urls st \<union> set xs
           \<and> report_lines st' = report_lines st"
  using assms
proof (induction xs arbitrary: st acc)
  case Nil
  then show ?case by simp
next
  case (Cons x xs)
  show ?case
  proof (cases "x \<in> processed_urls st")
    case True
    then have eq: "set (x # xs) - processed_urls st = set xs - processed_urls st"
      by auto
    have "\<forall>u\<in>set xs - processed_urls st. urlparse env u \<noteq> None"
      using Cons.prems by auto
    from Cons.IH [OF this, of acc] show ?thesis
      unfolding analyze_urls_skip [OF True] eq using True by auto
  next
    case False
    with Cons.prems obtain p where p: "urlparse env x = Some p"
      by auto
    let ?st = "emit (map snd (analyze_path x (split_path (path p))))
                 (st\<lparr>processed_urls := insert x (processed_urls st)\<rparr>)"
    have eq: "set (x # xs) - processed_urls st = insert x (set xs - processed_urls ?st)"
      using False by auto
    have "\<forall>u\<in>set xs - processed_urls ?st. urlparse env u \<noteq> None"
      using Cons.prems by auto
    from Cons.IH [OF this, of "acc \<union> url_hints env x"] show ?thesis
      unfolding analyze_urls_step [OF False p] eq by auto
  qed
qed

lemma analyze_urls_raised:
  assumes "\<exists>u\<in>set xs - processed_urls st. urlparse env u = None"
  shows "\<exists>st' acc'. analyze_urls env xs st acc = (Raised ValueError st', acc')
           \<and> found_parameters st' = found_parameters st
           \<and> report_lines st' = report_lines st"
  using assms
proof (induction xs arbitrary: st acc)
  case Nil
  then show ?case by simp
next
  case (Cons x xs)
  show ?case
  proof (cases "x \<in> processed_urls st")
    case True
    with Cons.prems have "\<exists>u\<in>set xs - processed_urls st. urlparse env u = None"
      by auto
    from Cons.IH [OF this, of acc] show ?thesis
      unfolding analyze_urls_skip [OF True] .
  next
    case False
    show ?thesis
    proof (cases "urlparse env x")
      case None
      show ?thesis
        unfolding analyze_urls_fail [OF False None] by (simp add: report_lines_def)
    next
      case (Some p)
      let ?st = "emit (map snd (analyze_path x (split_path (path p))))
                 (st\<lparr>processed_urls := insert x (processed_urls st)\<rparr>)"
      from Cons.prems Some have "\<exists>u\<in>set xs - processed_urls ?st. urlparse env u = None"
        by auto
      from Cons.IH [OF this, of "acc \<union> url_hints env x"] show ?thesis
        unfolding analyze_urls_step [OF False Some] by (auto simp: report_lines_def)
    qed
  qed
qed


section \<open>The path pass\<close>

lemma finite_add_joined:
  "add_joined env base rs acc = Some U \<Longrightarrow> finite acc \<Longrightarrow> finite U"
  by (induction rs arbitrary: acc) (auto split: option.splits)

lemma finite_collect_urls:
  assumes "collect_urls env base soup = Some U"
  shows "finite U"
proof -
  from assms obtain s1 s2 where
    "add_joined env base (List.map_filter (\<lambda>a. get a ''href'') (find_all [''a''] soup)) {} = Some s1"
    "add_joined env base (List.map_filter (\<lambda>f. get f ''action'') (find_all [''form''] soup)) s1 = Some s2"
    "add_joined env base (script_urls env soup) s2 = Some U"
    unfolding collect_urls_def by (auto simp: bind_eq_Some_conv)
  then show ?thesis
    using finite_add_joined by (metis finite.emptyI)
qed

lemma update_bucket_same [simp]:
  "found_parameters (update_bucket k (\<lambda>s. s) st) = found_parameters st"
proof -
  have "map (\<lambda>(c, s). if c = k then (c, s) else (c, s)) xs = xs" for xs :: "(string \<times> string set) list"
    by (induction xs) auto
  then show ?thesis
    by (simp add: update_bucket_def)
qed

lemma found_parameters_update_bucket:
  "found_parameters (update_bucket k f st)
     = map (\<lambda>(c, s). if c = k then (c, f s) else (c, s)) (found_parameters st)"
  by (simp add: update_bucket_def)

lemma path_pass_done:
  assumes "iterates (set_iter env)" and "html_content st = Some html" and "html \<noteq> []"
    and "collect_urls env (url st) (BeautifulSoup env html) = Some U"
    and "\<forall>u\<in>U - processed_urls st. urlparse env u \<noteq> None"
  shows "\<exists>st'. extract_potential_path_parameters env st = Done st'
           \<and> url st' = url st \<and> html_content st' = html_content st
           \<and> found_parameters st'
               = found_parameters (update_bucket ''Potential Path/Route Parameters''
                   (\<lambda>s. s \<union> (\<Union>u\<in>U - processed_urls st. url_hints env u)) st)
           \<and> processed_urls st' = processed_urls st \<union> U
           \<and> report_lines st' = report_lines st"
proof -
  have fin: "finite U"
    using assms(4) by (rule finite_collect_urls)
  with assms(1) have set: "set (set_iter env U) = U"
    by (simp add: iterates_def)
  let ?st0 = "emit [AnalyzingUrls] st"
  let ?H = "\<Union>u\<in>U - processed_urls st. url_hints env u"
  have "\<forall>u\<in>set (set_iter env U) - processed_urls ?st0. urlparse env u \<noteq> None"
    using assms(5) set by simp
  from analyze_urls_done [OF this, of "{}"] obtain st1 where
    loop: "analyze_urls env (set_iter env U) ?st0 {} = (Done st1, ?H)"
    and st1: "url st1 = url st" "html_content st1 = html_content st"
      "found_parameters st1 = found_parameters st"
      "processed_urls st1 = processed_urls st \<union> U" "report_lines st1 = report_lines st"
    unfolding set by auto
  have run: "extract_potential_path_parameters env st =
      (if ?H \<noteq> {}
       then Done (update_bucket ''Potential Path/Route Parameters'' (\<lambda>s. s \<union> ?H)
                    (emit [PathParamsFound (set_iter env ?H)] st1))
       else Done (emit [NoPathParams] st1))"
    using assms(2,3,4) loop by (simp add: extract_potential_path_parameters_def)
  show ?thesis
  proof (cases "?H = {}")
    case True
    then show ?thesis
      unfolding run using st1 by simp
  next
    case False
    then show ?thesis
      unfolding run using st1 by (simp add: found_parameters_update_bucket)
  qed
qed

lemma path_pass_raised:
  assumes "iterates (set_iter env)" and "html_content st = Some html" and "html \<noteq> []"
    and "collect_urls env (url st) (BeautifulSoup env html) = Some U"
    and "\<exists>u\<in>U - processed_urls st. urlparse env u = None"
  shows "\<exists>st'. extract_potential_path_parameters env st = Raised ValueError st'
           \<and> found_parameters st' = found_parameters st
           \<and> report_lines st' = report_lines st"
proof -
  have fin: "finite U"
    using assms(4) by (rule finite_collect_urls)
  with assms(1) have set: "set (set_iter env U) = U"
    by (simp add: iterates_def)
  let ?st0 = "emit [AnalyzingUrls] st"
  have "\<exists>u\<in>set (set_iter env U) - processed_urls ?st0. urlparse env u = None"
    using assms(5) set by simp
  from analyze_urls_raised [OF this, of "{}"] obtain st1 acc1 where
    loop: "analyze_urls env (set_iter env U) ?st0 {} = (Raised ValueError st1, acc1)"
    and st1: "found_parameters st1 = found_parameters st" "report_lines st1 = report_lines st"
    by auto
  have "extract_potential_path_parameters env st = Raised ValueError st1"
    using assms(2,3,4) loop by (simp add: extract_potential_path_parameters_def)
  then show ?thesis
    using st1 by simp
qed

lemma placeholder_in_path:
  assumes "segment \<in> set segs" and "explicit_placeholder segment = Some g"
  shows "g \<in> set (map fst (analyze_path u segs))"
proof -
  from assms(1) obtain i where i: "i < length segs" "segs ! i = segment"
    by (auto simp: in_set_conv_nth)
  then have "(i, segment) \<in> set (List.enumerate 0 segs)"
    by (auto simp: in_set_enumerate_eq)
  moreover have "(g, FoundPlaceholder g u) \<in> set (analyze_segment u segs (i, segment))"
    using assms(2) by (simp add: analyze_segment_def)
  ultimately have "(g, FoundPlaceholder g u) \<in> set (analyze_path u segs)"
    unfolding analyze_path_def by auto
  then show ?thesis
    by (metis fst_conv image_eqI set_map)
qed

lemma takeWhile_ident:
  "list_all is_ident_char cs \<Longrightarrow> \<not> is_ident_char d \<Longrightarrow> takeWhile is_ident_char (cs @ d # rest) = cs"
  by (induction cs) auto

lemma leading_identifier:
  assumes "is_ident_start c" and "list_all is_ident_char cs" and "\<not> is_ident_char d"
  shows "explicit_placeholder (c # cs @ d # rest) = Some (c # cs)"
proof -
  have nd: "c \<noteq> CHR ''{''" "c \<noteq> CHR '':''"
    using assms(1) by (auto simp: is_ident_start_def in_range_def)
  have "ident_prefix (c # cs @ d # rest) = Some (c # cs)"
    using assms by (simp add: ident_prefix_def takeWhile_ident)
  then have "placeholder_match (c # cs @ d # rest) = Some (c # cs)"
    using nd by (simp add: placeholder_match_def)
  then show ?thesis by (simp add: explicit_placeholder_def)
qed


lemma bucket_cong:
  "found_parameters s1 = found_parameters s2 \<Longrightarrow> bucket s1 k = bucket s2 k"
  by (simp add: bucket_def)

text \<open>
  Claim C9. The placeholder pattern is matched at the start of a segment only. A segment
  that begins with an identifier and goes on with a character that is no identifier
  character gives that identifier as a placeholder, as \<open>style.css\<close> gives \<open>style\<close> and
  \<open>my-page\<close> gives \<open>my\<close>. When such a segment stands in the path of a URL of the page
  that was not analyzed before, and \<open>urlparse\<close> raises for no URL of the page, the pass
  returns and the identifier is in the bucket of the path and route parameters.
\<close>

theorem leading_identifier_emitted:
  assumes "iterates (set_iter env)" and "html_content st = Some html" and "html \<noteq> []"
    and "collect_urls env (url st) (BeautifulSoup env html) = Some urls_to_analyze"
    and "\<forall>u\<in>urls_to_analyze - processed_urls st. urlparse env u \<noteq> None"
    and "url_str \<in> urls_to_analyze" and "url_str \<notin> processed_urls st"
    and "urlparse env url_str = Some parsed_url"
    and "c # cs @ d # rest \<in> set (split_path (path parsed_url))"
    and "is_ident_start c" and "list_all is_ident_char cs" and "\<not> is_ident_char d"
    and "map fst (found_parameters st) = categories"
  shows "explicit_placeholder (c # cs @ d # rest) = Some (c # cs)
       \<and> (\<exists>st'. extract_potential_path_parameters env st = Done st'
                \<and> c # cs \<in> bucket st' ''Potential Path/Route Parameters'')
       \<and> explicit_placeholder ''style.css'' = Some ''style''
       \<and> explicit_placeholder ''my-page'' = Some ''my''"
proof -
  let ?H = "\<Union>u\<in>urls_to_analyze - processed_urls st. url_hints env u"
  have ph: "explicit_placeholder (c # cs @ d # rest) = Some (c # cs)"
    using assms(10-12) by (rule leading_identifier)
  have "c # cs \<in> set (map fst (analyze_path url_str (split_path (path parsed_url))))"
    using assms(9) ph by (rule placeholder_in_path)
  then have "c # cs \<in> url_hints env url_str"
    using assms(8) by (simp add: url_hints_def)
  then have inH: "c # cs \<in> ?H"
    using assms(6,7) by blast
  from path_pass_done [OF assms(1-5)] obtain st' where
    run: "extract_potential_path_parameters env st = Done st'"
    and fp: "found_parameters st' = found_parameters
               (update_bucket ''Potential Path/Route Parameters'' (\<lambda>s. s \<union> ?H) st)"
    by blast
  have key: "''Potential Path/Route Parameters'' \<in> set (map fst (found_parameters st))"
    unfolding assms(13) by (simp add: categories_def)
  have "bucket st' ''Potential Path/Route Parameters''
          = bucket st ''Potential Path/Route Parameters'' \<union> ?H"
    unfolding bucket_cong [OF fp] bucket_update_bucket [OF key] by simp
  with inH have "c # cs \<in> bucket st' ''Potential Path/Route Parameters''"
    by simp
  with run have ex: "\<exists>st'. extract_potential_path_parameters env st = Done st'
                \<and> c # cs \<in> bucket st' ''Potential Path/Route Parameters''"
    by blast
  have e1: "explicit_placeholder ''style.css'' = Some ''style''"
    by code_simp
  have e2: "explicit_placeholder ''my-page'' = Some ''my''"
    by code_simp
  show ?thesis
    using ph ex e1 e2 by (intro conjI)
qed

lemma example_collect_urls:
  "collect_urls (example_env it) example_url example_soup
     = Some {''http://example.com/users/42'', ''http://example.com/static/style.css'',
             ''http://example.com/blog/my-page'', ''http://example.com/search''}"
  by code_simp


theorem leading_identifier_emitted_witness:
  "explicit_placeholder ''style.css'' = Some ''style''
   \<and> (\<exists>st'. extract_potential_path_parameters (example_env ascending) fetched_finder = Done st'
          \<and> ''style'' \<in> bucket st' ''Potential Path/Route Parameters'')"
proof -
  let ?U = "{''http://example.com/users/42'', ''http://example.com/static/style.css'',
             ''http://example.com/blog/my-page'', ''http://example.com/search''}"
  let ?p = "\<lparr>path = ''/static/style.css'', query = []\<rparr>"
  have f1: "iterates (set_iter (example_env ascending))"
    by (simp add: example_env_def iterates_ascending)
  have f2: "html_content fetched_finder = Some example_html"
    by (simp add: fetched_finder_def)
  have f3: "example_html \<noteq> []"
    unfolding example_html_def by simp
  have u: "url fetched_finder = example_url"
    by (simp add: fetched_finder_def init_def)
  have b: "BeautifulSoup (example_env ascending) example_html = example_soup"
    by (simp add: example_env_def)
  have f4: "collect_urls (example_env ascending) (url fetched_finder)
              (BeautifulSoup (example_env ascending) example_html) = Some ?U"
    unfolding u b by (rule example_collect_urls)
  have f5: "\<forall>u\<in>?U - processed_urls fetched_finder. urlparse (example_env ascending) u \<noteq> None"
    by code_simp
  have f6: "''http://example.com/static/style.css'' \<in> ?U"
    by simp
  have f7: "''http://example.com/static/style.css'' \<notin> processed_urls fetched_finder"
    by (simp add: fetched_finder_def init_def)
  have f8: "urlparse (example_env ascending) ''http://example.com/static/style.css'' = Some ?p"
    by code_simp
  have f9: "CHR ''s'' # ''tyle'' @ CHR ''.'' # ''css'' \<in> set (split_path (path ?p))"
    by code_simp
  have f10: "is_ident_start (CHR ''s'')"
    by code_simp
  have f11: "list_all is_ident_char ''tyle''"
    by code_simp
  have f12: "\<not> is_ident_char (CHR ''.'')"
    by code_simp
  have f13: "map fst (found_parameters fetched_finder) = categories"
    unfolding fetched_finder_def by simp
  note t = leading_identifier_emitted [OF f1 f2 f3 f4 f5 f6 f7 f8 f9 f10 f11 f12 f13]
  from t [THEN conjunct1] t [THEN conjunct2, THEN conjunct1] show ?thesis
    by simp
qed

section \<open>Two runs with different orders of iteration\<close>

lemma agree_refl: "finite_buckets st \<Longrightarrow> agree st st"
  by (simp add: agree_def)

lemma agree_emit:
  assumes "agree s1 s2" and "filter is_report l1 = filter is_report l2"
  shows "agree (emit l1 s1) (emit l2 s2)"
  using assms by (simp add: agree_def)

lemma agree_progress:
  assumes "agree s1 s2" and "\<not> is_report l1" and "\<not> is_report l2"
  shows "agree (emit [l1] s1) (emit [l2] s2)"
  using assms by (simp add: agree_emit)

lemma agree_update:
  assumes "agree s1 s2" and "\<And>s. finite s \<Longrightarrow> finite (f s)"
  shows "agree (update_bucket k f s1) (update_bucket k f s2)"
  using assms
  by (simp add: agree_def found_parameters_update_bucket finite_buckets_update)

lemma agree_insert:
  "agree s1 s2 \<Longrightarrow> agree (update_bucket k (insert x) s1) (update_bucket k (insert x) s2)"
  by (rule agree_update) simp_all

lemma agree_union:
  "agree s1 s2 \<Longrightarrow> finite H \<Longrightarrow>
     agree (update_bucket k (\<lambda>s. s \<union> H) s1) (update_bucket k (\<lambda>s. s \<union> H) s2)"
  by (rule agree_update) simp_all

lemma agree_out_and_then:
  assumes "agree_out r1 r2" and "\<And>s1 s2. agree s1 s2 \<Longrightarrow> agree_out (f1 s1) (f2 s2)"
  shows "agree_out (and_then r1 f1) (and_then r2 f2)"
  using assms by (cases r1; cases r2) simp_all

lemma agree_out_final:
  assumes "agree_out r1 r2"
  shows "found_parameters (final r1) = found_parameters (final r2)
       \<and> report_lines (final r1) = report_lines (final r2)
       \<and> exit_code r1 = exit_code r2"
  using assms by (cases r1; cases r2) (simp_all add: agree_def exit_code_def)

subsection \<open>Fetch and query\<close>

lemma agree_fetch_page:
  assumes "agree s1 s2"
  shows "agree_out (fetch_page (env\<lparr>set_iter := it1\<rparr>) s1) (fetch_page (env\<lparr>set_iter := it2\<rparr>) s2)"
proof -
  from assms have u: "url s1 = url s2"
    by (simp add: agree_def)
  show ?thesis
  proof (cases "requests_get env (url s2)")
    case (Inl e)
    then show ?thesis
      using assms by (simp add: fetch_page_def u agree_def Let_def)
  next
    case (Inr r)
    then show ?thesis
      using assms by (auto simp: fetch_page_def u agree_def Let_def finite_buckets_def report_lines_def)
  qed
qed

lemma parse_qs_iter [simp]: "parse_qs (env\<lparr>set_iter := it\<rparr>) q = parse_qs env q"
proof -
  have "parse_field (env\<lparr>set_iter := it\<rparr>) = parse_field env"
    by (rule ext) (simp add: parse_field_def unquote_plus_def Let_def split: prod.splits)
  then show ?thesis
    by (simp add: parse_qs_def parse_qsl_def)
qed

lemma agree_add_keys:
  "agree s1 s2 \<Longrightarrow>
     agree (foldl (\<lambda>s x. update_bucket k (insert x) s) s1 xs)
           (foldl (\<lambda>s x. update_bucket k (insert x) s) s2 xs)"
  by (induction xs arbitrary: s1 s2) (simp_all add: agree_insert)

lemma agree_query:
  assumes "agree s1 s2"
  shows "agree_out (extract_url_query_parameters (env\<lparr>set_iter := it1\<rparr>) s1)
                   (extract_url_query_parameters (env\<lparr>set_iter := it2\<rparr>) s2)"
proof -
  from assms have u: "url s1 = url s2"
    by (simp add: agree_def)
  show ?thesis
  proof (cases "urlparse env (url s2)")
    case None
    then show ?thesis
      using assms by (simp add: extract_url_query_parameters_def u agree_def Let_def)
  next
    case (Some p)
    let ?ks = "map fst (parse_qs env (query p))"
    have "agree (foldl (\<lambda>s x. update_bucket ''URL Query Parameters'' (insert x) s) s1 ?ks)
                (foldl (\<lambda>s x. update_bucket ''URL Query Parameters'' (insert x) s) s2 ?ks)"
      using assms by (rule agree_add_keys)
    then show ?thesis
      using Some by (simp add: extract_url_query_parameters_def u agree_emit Let_def)
  qed
qed


subsection \<open>The path pass\<close>

lemma add_joined_iter [simp]:
  "add_joined (env\<lparr>set_iter := it\<rparr>) base rs acc = add_joined env base rs acc"
  by (induction rs arbitrary: acc) (simp_all split: option.splits)

lemma collect_urls_iter [simp]:
  "collect_urls (env\<lparr>set_iter := it\<rparr>) base soup = collect_urls env base soup"
  by (simp add: collect_urls_def script_urls_def)

lemma url_hints_iter [simp]: "url_hints (env\<lparr>set_iter := it\<rparr>) u = url_hints env u"
  by (simp add: url_hints_def)

lemma agree_path:
  assumes "agree s1 s2" and "iterates it1" and "iterates it2"
  shows "agree_out (extract_potential_path_parameters (env\<lparr>set_iter := it1\<rparr>) s1)
                   (extract_potential_path_parameters (env\<lparr>set_iter := it2\<rparr>) s2)"
proof -
  let ?e1 = "env\<lparr>set_iter := it1\<rparr>" and ?e2 = "env\<lparr>set_iter := it2\<rparr>"
  from assms(1) have eq: "url s1 = url s2" "html_content s1 = html_content s2"
      "found_parameters s1 = found_parameters s2" "processed_urls s1 = processed_urls s2"
      "report_lines s1 = report_lines s2" and fin: "finite_buckets s1"
    by (simp_all add: agree_def)
  have i1: "iterates (set_iter ?e1)" and i2: "iterates (set_iter ?e2)"
    using assms(2,3) by simp_all
  show ?thesis
  proof (cases "html_content s2")
    case None
    then show ?thesis
      using assms(1) eq by (simp add: extract_potential_path_parameters_def)
  next
    case (Some html)
    show ?thesis
    proof (cases "html = []")
      case True
      then show ?thesis
        using assms(1) eq Some by (simp add: extract_potential_path_parameters_def)
    next
      case False
      have h1: "html_content s1 = Some html"
        using eq Some by simp
      show ?thesis
      proof (cases "collect_urls env (url s2) (BeautifulSoup env html)")
        case None
        then show ?thesis
          using eq Some False by (simp add: extract_potential_path_parameters_def)
      next
        case (Some U)
        have c1: "collect_urls ?e1 (url s1) (BeautifulSoup ?e1 html) = Some U"
          using Some eq by simp
        have c2: "collect_urls ?e2 (url s2) (BeautifulSoup ?e2 html) = Some U"
          using Some by simp
        have finU: "finite U"
          using Some by (rule finite_collect_urls)
        let ?H = "\<Union>u\<in>U - processed_urls s2. url_hints env u"
        have finH: "finite ?H"
          using finU by simp
        show ?thesis
        proof (cases "\<forall>u\<in>U - processed_urls s2. urlparse env u \<noteq> None")
          case True
          have p1: "\<forall>u\<in>U - processed_urls s1. urlparse ?e1 u \<noteq> None"
            using True eq by simp
          have p2: "\<forall>u\<in>U - processed_urls s2. urlparse ?e2 u \<noteq> None"
            using True by simp
          from path_pass_done [OF i1 h1 False c1 p1] obtain t1 where
            t1: "extract_potential_path_parameters ?e1 s1 = Done t1"
              "url t1 = url s1" "html_content t1 = html_content s1"
              "found_parameters t1 = found_parameters
                 (update_bucket ''Potential Path/Route Parameters'' (\<lambda>s. s \<union> ?H) s1)"
              "processed_urls t1 = processed_urls s1 \<union> U" "report_lines t1 = report_lines s1"
            using eq by auto
          from path_pass_done [OF i2 \<open>html_content s2 = Some html\<close> False c2 p2] obtain t2 where
            t2: "extract_potential_path_parameters ?e2 s2 = Done t2"
              "url t2 = url s2" "html_content t2 = html_content s2"
              "found_parameters t2 = found_parameters
                 (update_bucket ''Potential Path/Route Parameters'' (\<lambda>s. s \<union> ?H) s2)"
              "processed_urls t2 = processed_urls s2 \<union> U" "report_lines t2 = report_lines s2"
            by auto
          have "agree (update_bucket ''Potential Path/Route Parameters'' (\<lambda>s. s \<union> ?H) s1)
                      (update_bucket ''Potential Path/Route Parameters'' (\<lambda>s. s \<union> ?H) s2)"
            using assms(1) finH by (rule agree_union)
          then have fpw: "found_parameters (update_bucket ''Potential Path/Route Parameters'' (\<lambda>s. s \<union> ?H) s1)
                = found_parameters (update_bucket ''Potential Path/Route Parameters'' (\<lambda>s. s \<union> ?H) s2)"
            and finw: "finite_buckets (update_bucket ''Potential Path/Route Parameters'' (\<lambda>s. s \<union> ?H) s1)"
            by (simp_all add: agree_def)
          have fp: "found_parameters t1 = found_parameters t2"
            unfolding t1(4) t2(4) by (rule fpw)
          have "finite_buckets t1"
            using finw unfolding finite_buckets_def t1(4) .
          then have "agree t1 t2"
            unfolding agree_def using fp t1(2,3,5,6) t2(2,3,5,6) eq by simp
          then show ?thesis
            by (simp add: t1(1) t2(1))
        next
          case False
          then have q1: "\<exists>u\<in>U - processed_urls s1. urlparse ?e1 u = None"
            and q2: "\<exists>u\<in>U - processed_urls s2. urlparse ?e2 u = None"
            using eq by simp_all
          from path_pass_raised [OF i1 h1 \<open>html \<noteq> []\<close> c1 q1] obtain t1 where
            t1: "extract_potential_path_parameters ?e1 s1 = Raised ValueError t1"
              "found_parameters t1 = found_parameters s1" "report_lines t1 = report_lines s1"
            by auto
          from path_pass_raised [OF i2 \<open>html_content s2 = Some html\<close> \<open>html \<noteq> []\<close> c2 q2] obtain t2 where
            t2: "extract_potential_path_parameters ?e2 s2 = Raised ValueError t2"
              "found_parameters t2 = found_parameters s2" "report_lines t2 = report_lines s2"
            by auto
          show ?thesis
            using eq by (simp add: t1 t2)
        qed
      qed
    qed
  qed
qed


subsection \<open>Forms, scripts and comments\<close>

lemma agree_element:
  assumes "agree s1 s2"
  shows "agree (analyze_element e s1) (analyze_element e s2)"
proof (cases "get e ''name''")
  case None
  then show ?thesis
    using assms by (simp add: analyze_element_def)
next
  case (Some name)
  show ?thesis
    using assms unfolding analyze_element_def Some
    by (simp add: agree_emit agree_insert)
qed

lemma agree_elements:
  "agree s1 s2 \<Longrightarrow>
     agree (foldl (\<lambda>s e. analyze_element e s) s1 es) (foldl (\<lambda>s e. analyze_element e s) s2 es)"
  by (induction es arbitrary: s1 s2) (simp_all add: agree_element)

lemma agree_form:
  "agree s1 s2 \<Longrightarrow> agree (analyze_form f s1) (analyze_form f s2)"
  by (cases f) (simp add: analyze_form_def agree_elements agree_emit)

lemma agree_forms:
  "agree s1 s2 \<Longrightarrow>
     agree (foldl (\<lambda>s f. analyze_form f s) s1 fs) (foldl (\<lambda>s f. analyze_form f s) s2 fs)"
  by (induction fs arbitrary: s1 s2) (simp_all add: agree_form)

lemma agree_form_pass:
  assumes "agree s1 s2"
  shows "agree_out (extract_form_parameters (env\<lparr>set_iter := it1\<rparr>) s1)
                   (extract_form_parameters (env\<lparr>set_iter := it2\<rparr>) s2)"
proof -
  from assms have h: "html_content s1 = html_content s2"
    by (simp add: agree_def)
  show ?thesis
    using assms unfolding extract_form_parameters_def h
    by (simp add: Let_def agree_forms agree_emit split: option.splits)
qed

lemma finite_js_pairs:
  "finite A \<Longrightarrow>
     finite (foldl (\<lambda>found_in_js (m0, m1).
                 (if m1 \<noteq> [] then insert m1 else id) ((if m0 \<noteq> [] then insert m0 else id) found_in_js))
               A ps)"
  by (induction ps arbitrary: A) (simp_all split: prod.splits)

lemma finite_inserts:
  "finite A \<Longrightarrow> finite (foldl (\<lambda>found x. insert x found) A xs)"
  by (induction xs arbitrary: A) simp_all

lemma finite_js_names [simp]: "finite (js_names env c)"
  by (simp add: js_names_def finite_inserts finite_js_pairs)

lemma js_names_iter [simp]: "js_names (env\<lparr>set_iter := it\<rparr>) c = js_names env c"
  by (simp add: js_names_def)

lemma agree_js_pass:
  assumes "agree s1 s2"
  shows "agree_out (extract_js_parameters (env\<lparr>set_iter := it1\<rparr>) s1)
                   (extract_js_parameters (env\<lparr>set_iter := it2\<rparr>) s2)"
proof -
  from assms have h: "html_content s1 = html_content s2"
    by (simp add: agree_def)
  show ?thesis
    using assms unfolding extract_js_parameters_def h
    by (simp add: Let_def agree_emit agree_union split: option.splits)
qed

lemma finite_words:
  "finite A \<Longrightarrow>
     finite (foldl (\<lambda>found word.
              if length word > 2 \<and> lower word \<notin> common_words then insert word found else found) A ws)"
  by (induction ws arbitrary: A) simp_all

lemma finite_comment_names: "finite A \<Longrightarrow> finite (comment_names env A c)"
  by (simp add: comment_names_def finite_words finite_inserts)

lemma finite_comments: "finite A \<Longrightarrow> finite (foldl (comment_names env) A cs)"
  by (induction cs arbitrary: A) (simp_all add: finite_comment_names)

lemma comment_names_iter [simp]: "comment_names (env\<lparr>set_iter := it\<rparr>) = comment_names env"
  by (intro ext) (simp add: comment_names_def)

lemma agree_comment_pass:
  assumes "agree s1 s2"
  shows "agree_out (extract_comment_parameters (env\<lparr>set_iter := it1\<rparr>) s1)
                   (extract_comment_parameters (env\<lparr>set_iter := it2\<rparr>) s2)"
proof -
  from assms have h: "html_content s1 = html_content s2"
    by (simp add: agree_def)
  show ?thesis
    using assms unfolding extract_comment_parameters_def h
    by (simp add: Let_def agree_emit agree_union finite_comments split: option.splits)
qed

subsection \<open>The report\<close>

lemma agree_display:
  assumes "agree s1 s2" and "iterates it1" and "iterates it2"
  shows "agree (display_results (env\<lparr>set_iter := it1\<rparr>) s1) (display_results (env\<lparr>set_iter := it2\<rparr>) s2)"
proof -
  from assms(1) have eq: "url s1 = url s2" "found_parameters s1 = found_parameters s2"
    and fin: "list_all (\<lambda>(c, s). finite s) (found_parameters s2)"
    by (auto simp: agree_def finite_buckets_def)
  have "report (env\<lparr>set_iter := it1\<rparr>) s1 = report (env\<lparr>set_iter := it2\<rparr>) s2"
    unfolding report_def eq
    using assms(2,3) fin by (simp add: report_sorted)
  then show ?thesis
    using assms(1) by (simp add: display_results_def agree_emit split: prod.splits)
qed


subsection \<open>The whole run\<close>

lemma agree_display_out:
  assumes "agree s1 s2" and "iterates it1" and "iterates it2"
  shows "agree_out (Done (display_results (env\<lparr>set_iter := it1\<rparr>) s1))
                   (Done (display_results (env\<lparr>set_iter := it2\<rparr>) s2))"
  using agree_display [OF assms] by simp

lemma agree_run:
  assumes "iterates it1" and "iterates it2"
  shows "agree_out (run (env\<lparr>set_iter := it1\<rparr>) u) (run (env\<lparr>set_iter := it2\<rparr>) u)"
proof -
  let ?e1 = "env\<lparr>set_iter := it1\<rparr>" and ?e2 = "env\<lparr>set_iter := it2\<rparr>"
  have "agree (init u) (init u)"
    by (simp add: agree_refl)
  then have "agree_out (fetch_page ?e1 (init u)) (fetch_page ?e2 (init u))"
    by (rule agree_fetch_page)
  then have "agree_out
      (and_then (fetch_page ?e1 (init u)) (extract_url_query_parameters ?e1))
      (and_then (fetch_page ?e2 (init u)) (extract_url_query_parameters ?e2))"
    by (rule agree_out_and_then) (rule agree_query)
  then have "agree_out
      (and_then (and_then (fetch_page ?e1 (init u)) (extract_url_query_parameters ?e1))
         (extract_potential_path_parameters ?e1))
      (and_then (and_then (fetch_page ?e2 (init u)) (extract_url_query_parameters ?e2))
         (extract_potential_path_parameters ?e2))"
    by (rule agree_out_and_then) (rule agree_path [OF _ assms])
  then have "agree_out
      (and_then (and_then (and_then (fetch_page ?e1 (init u)) (extract_url_query_parameters ?e1))
         (extract_potential_path_parameters ?e1)) (extract_form_parameters ?e1))
      (and_then (and_then (and_then (fetch_page ?e2 (init u)) (extract_url_query_parameters ?e2))
         (extract_potential_path_parameters ?e2)) (extract_form_parameters ?e2))"
    by (rule agree_out_and_then) (rule agree_form_pass)
  then have "agree_out
      (and_then (and_then (and_then (and_then (fetch_page ?e1 (init u))
         (extract_url_query_parameters ?e1)) (extract_potential_path_parameters ?e1))
         (extract_form_parameters ?e1)) (extract_js_parameters ?e1))
      (and_then (and_then (and_then (and_then (fetch_page ?e2 (init u))
         (extract_url_query_parameters ?e2)) (extract_potential_path_parameters ?e2))
         (extract_form_parameters ?e2)) (extract_js_parameters ?e2))"
    by (rule agree_out_and_then) (rule agree_js_pass)
  then have "agree_out
      (and_then (and_then (and_then (and_then (and_then (fetch_page ?e1 (init u))
         (extract_url_query_parameters ?e1)) (extract_potential_path_parameters ?e1))
         (extract_form_parameters ?e1)) (extract_js_parameters ?e1))
         (extract_comment_parameters ?e1))
      (and_then (and_then (and_then (and_then (and_then (fetch_page ?e2 (init u))
         (extract_url_query_parameters ?e2)) (extract_potential_path_parameters ?e2))
         (extract_form_parameters ?e2)) (extract_js_parameters ?e2))
         (extract_comment_parameters ?e2))"
    by (rule agree_out_and_then) (rule agree_comment_pass)
  then show ?thesis
    unfolding run_def find_all_parameters_def
    by (rule agree_out_and_then) (rule agree_display_out [OF _ assms])
qed

text \<open>
  Claim C8. Two runs on the same target URL, with the same results of the libraries
  (so the same fetched HTML text) and any two orders in which the interpreter iterates
  over its sets, end in the same way: the six buckets are equal, the report lines, sorted
  names and total included, are the same, and so is the exit code. Only the progress
  lines may differ.
\<close>

theorem run_deterministic:
  assumes "iterates it1" and "iterates it2"
  shows "found_parameters (final (run (env\<lparr>set_iter := it1\<rparr>) target_url))
           = found_parameters (final (run (env\<lparr>set_iter := it2\<rparr>) target_url))
       \<and> report_lines (final (run (env\<lparr>set_iter := it1\<rparr>) target_url))
           = report_lines (final (run (env\<lparr>set_iter := it2\<rparr>) target_url))
       \<and> exit_code (run (env\<lparr>set_iter := it1\<rparr>) target_url)
           = exit_code (run (env\<lparr>set_iter := it2\<rparr>) target_url)"
  using agree_run [OF assms] by (rule agree_out_final)

theorem run_deterministic_witness:
  "found_parameters (final (run (example_env ascending) example_url))
     = found_parameters (final (run (example_env descending) example_url))
   \<and> report_lines (final (run (example_env ascending) example_url))
     = report_lines (final (run (example_env descending) example_url))
   \<and> exit_code (run (example_env ascending) example_url)
     = exit_code (run (example_env descending) example_url)
   \<and> ascending {''my'', ''slug''} = [''my'', ''slug'']
   \<and> descending {''my'', ''slug''} = [''slug'', ''my'']"
proof -
  have e: "(example_env ascending)\<lparr>set_iter := it\<rparr> = example_env it" for it
    by (simp add: example_env_def)
  have a: "ascending {''my'', ''slug''} = [''my'', ''slug'']"
    by code_simp
  have d: "descending {''my'', ''slug''} = [''slug'', ''my'']"
    by code_simp
  from run_deterministic [OF iterates_ascending iterates_descending,
      of "example_env ascending" example_url]
  show ?thesis
    unfolding e using a d by simp
qed

end
